theory Spec2Isabelle
  imports Main "HOL-Library.Word"
begin

section \<open>The TLS connection multiplexing engine: TLSServer and TLSSocket\<close>

text \<open>
  The embedding follows \<^verbatim>\<open>TLSServer.cpp\<close>, the class declaration of \<^verbatim>\<open>TLSServer\<close> and the
  implementation of \<^verbatim>\<open>TLSSocket\<close>. One server and the connection objects it created live
  in a \<open>world\<close>. A connection object is addressed by a reference (the pointer of the
  source); the registry \<^verbatim>\<open>_socketMap\<close> maps descriptors to references, so that the
  registry, the loop and a caller can hold the same object.

  What the operating system and the TLS library answer is an input of each operation:
  the results of \<^verbatim>\<open>socket\<close>, \<^verbatim>\<open>bind\<close>, \<^verbatim>\<open>listen\<close>, \<^verbatim>\<open>select\<close>, \<^verbatim>\<open>accept\<close>, \<^verbatim>\<open>SSL_new\<close>,
  \<^verbatim>\<open>SSL_accept\<close>, \<^verbatim>\<open>SSL_read\<close>, \<^verbatim>\<open>SSL_pending\<close> and \<^verbatim>\<open>SSL_write\<close>. The calls into the event
  sinks and the library calls that matter for the properties below are recorded, in
  order, in the \<open>trace\<close> of the world. An event sink only records: what a sink does in
  turn is a further operation on the world.

  Every function of the source is one state transformer: the model runs it from its
  first statement to its last without another thread in between. The mutexes are
  therefore not represented; a region between \<^verbatim>\<open>lock\<close> and \<^verbatim>\<open>unlock\<close> is a part of one
  transformer.
\<close>

subsection \<open>Data\<close>

type_synonym socket_ref = nat
type_synonym handler_ref = nat

text \<open>The session object behind \<^verbatim>\<open>_tlsPeer\<close>: the pointer keeps its value after
  \<^verbatim>\<open>SSL_free\<close>, the object it points to is gone.\<close>

datatype ssl_session = Session_live | Session_freed

record TLSSocket =
  owner :: bool
  socketDescriptor :: int
  tlsPeer :: ssl_session
  sslAccepted :: bool
  eventHandler :: "handler_ref option"

text \<open>\<open>owner\<close> is \<^verbatim>\<open>_owner != nullptr\<close> (there is one server). The server's
  \<^verbatim>\<open>_eventHandler\<close> is \<open>serverEventHandler\<close>, since a field name is used once.
  \<^verbatim>\<open>fd_set\<close> is a set of descriptors, \<^verbatim>\<open>std::map\<close> a list of entries in key order.\<close>

record TLSServer =
  serverEventHandler :: "handler_ref option"
  serverSocket :: int
  serverPort :: "16 word"
  serverIsRunning :: bool
  serverIsShutdown :: bool
  activeDescriptors :: "int set"
  socketMap :: "(int \<times> socket_ref) list"

datatype event =
    TlsNewConnection handler_ref socket_ref
  | SocketBytesReceived handler_ref socket_ref string
  | SocketDisconnected handler_ref socket_ref
  | SSL_accept_called socket_ref int
  | SSL_write_called socket_ref string
  | SSL_shutdown_called socket_ref
  | SSL_free_called socket_ref
  | Shutdown_write_called int
  | Descriptor_closed int

text \<open>What ends the program, or keeps a call from returning: \<^verbatim>\<open>std::map::at\<close> on a
  missing key throws and nothing catches it; a library call on a freed session is
  undefined; \<^verbatim>\<open>SSL_read\<close> with nothing to read does not return; a method cannot be
  called through a null pointer.\<close>

datatype fault = Out_of_range | Freed_session_used | Blocked_in_read | Null_socket

text \<open>\<open>maxDescriptor\<close> and \<open>continueRunning\<close> are the local variables of
  \<^verbatim>\<open>TLSServer::run\<close> that live across the iterations of its loop; \<open>allocated\<close> is the
  next unused reference.\<close>

record world =
  server :: TLSServer
  sockets :: "socket_ref \<Rightarrow> TLSSocket option"
  allocated :: nat
  maxDescriptor :: int
  continueRunning :: bool
  trace :: "event list"
  crashed :: "fault option"

definition emit :: "event list \<Rightarrow> world \<Rightarrow> world" where
  "emit es w = w\<lparr>trace := trace w @ es\<rparr>"

subsection \<open>The registry container\<close>

text \<open>\<^verbatim>\<open>std::map::insert\<close> keeps an entry that is already there; \<^verbatim>\<open>erase\<close> removes the
  key; \<^verbatim>\<open>at\<close> is \<open>map_of\<close>, with \<open>None\<close> where the source throws.\<close>

fun map_insert :: "int \<Rightarrow> 'a \<Rightarrow> (int \<times> 'a) list \<Rightarrow> (int \<times> 'a) list" where
  "map_insert k v [] = [(k, v)]"
| "map_insert k v ((k', v') # m) =
     (if k = k' then (k', v') # m
      else if k < k' then (k, v) # (k', v') # m
      else (k', v') # map_insert k v m)"

definition map_erase :: "int \<Rightarrow> (int \<times> 'a) list \<Rightarrow> (int \<times> 'a) list" where
  "map_erase k m = filter (\<lambda>e. fst e \<noteq> k) m"

subsection \<open>TLSSocket\<close>

definition setEventHandler :: "world \<Rightarrow> socket_ref \<Rightarrow> handler_ref option \<Rightarrow> world" where
  "setEventHandler w r h =
     (case sockets w r of
        None \<Rightarrow> w
      | Some sk \<Rightarrow> w\<lparr>sockets := (sockets w)(r \<mapsto> sk\<lparr>eventHandler := h\<rparr>)\<rparr>)"

definition releaseOwner :: "world \<Rightarrow> socket_ref \<Rightarrow> world" where
  "releaseOwner w r =
     (case sockets w r of
        None \<Rightarrow> w
      | Some sk \<Rightarrow> w\<lparr>sockets := (sockets w)(r \<mapsto> sk\<lparr>owner := False\<rparr>)\<rparr>)"

text \<open>\<^verbatim>\<open>TLSSocket::write\<close> (here \<open>write_bytes\<close>) hands \<^verbatim>\<open>_tlsPeer\<close> to \<^verbatim>\<open>SSL_write\<close> and returns what the
  library returns (\<open>written\<close>). It tests neither the descriptor nor the session.\<close>

definition write_bytes :: "world \<Rightarrow> socket_ref \<Rightarrow> string \<Rightarrow> int \<Rightarrow> (fault \<times> world) + (int \<times> world)" where
  "write_bytes w r bytes written =
     (case sockets w r of
        None \<Rightarrow> Inl (Null_socket, w)
      | Some sk \<Rightarrow>
          if tlsPeer sk = Session_freed then Inl (Freed_session_used, w)
          else Inr (written, emit [SSL_write_called r bytes] w))"

text \<open>\<^verbatim>\<open>TLSServer::removeSocket\<close>: nothing while the server is not running; otherwise the
  descriptor leaves the interest set and the registry, then the owner is released.\<close>

definition removeSocket :: "world \<Rightarrow> socket_ref \<Rightarrow> world" where
  "removeSocket w r =
     (case sockets w r of
        None \<Rightarrow> w
      | Some sk \<Rightarrow>
          if \<not> serverIsRunning (server w) then w
          else releaseOwner
                 (w\<lparr>server := (server w)
                      \<lparr>activeDescriptors := activeDescriptors (server w) - {socketDescriptor sk},
                       socketMap := map_erase (socketDescriptor sk) (socketMap (server w))\<rparr>\<rparr>) r)"

text \<open>\<^verbatim>\<open>TLSSocket::close\<close>. The disconnect notification is sent last, to the handler
  attached at that moment, and only when this call closed the descriptor.\<close>

definition close :: "world \<Rightarrow> socket_ref \<Rightarrow> world" where
  "close w r =
     (case sockets w r of
        None \<Rightarrow> w
      | Some sk \<Rightarrow>
          if socketDescriptor sk \<noteq> - 1 then
            (let w1 = (if owner sk then removeSocket w r else w);
                 w2 = emit ((if sslAccepted sk then [SSL_shutdown_called r] else []) @
                            [Shutdown_write_called (socketDescriptor sk),
                             Descriptor_closed (socketDescriptor sk),
                             SSL_free_called r]) w1;
                 w3 = (case sockets w2 r of
                         None \<Rightarrow> w2
                       | Some sk' \<Rightarrow>
                           w2\<lparr>sockets := (sockets w2)
                                (r \<mapsto> sk'\<lparr>socketDescriptor := - 1, tlsPeer := Session_freed\<rparr>)\<rparr>)
             in (case eventHandler sk of
                   None \<Rightarrow> w3
                 | Some h \<Rightarrow> emit [SocketDisconnected h r] w3))
          else w)"

text \<open>\<^verbatim>\<open>TLSServer::sendNewConnectionEvent\<close>: the event carries the registry's pointer
  for the descriptor of the connection.\<close>

definition sendNewConnectionEvent :: "world \<Rightarrow> socket_ref \<Rightarrow> (fault \<times> world) + world" where
  "sendNewConnectionEvent w r =
     (case sockets w r of
        None \<Rightarrow> Inr w
      | Some sk \<Rightarrow>
          (case serverEventHandler (server w) of
             None \<Rightarrow> Inr w
           | Some h \<Rightarrow>
               if serverIsRunning (server w) then
                 (case map_of (socketMap (server w)) (socketDescriptor sk) of
                    None \<Rightarrow> Inl (Out_of_range, w)
                  | Some r' \<Rightarrow> Inr (emit [TlsNewConnection h r'] w))
               else Inr w))"

text \<open>\<^verbatim>\<open>TLSSocket::acceptSSL\<close>; \<open>res\<close> is what \<^verbatim>\<open>SSL_accept\<close> returns. The source tests
  \<^verbatim>\<open>! SSL_accept(_tlsPeer)\<close>: the handshake counts as failed exactly when the library
  returns 0.\<close>

definition acceptSSL :: "world \<Rightarrow> socket_ref \<Rightarrow> int \<Rightarrow> (fault \<times> world) + (int \<times> world)" where
  "acceptSSL w r res =
     (case sockets w r of
        None \<Rightarrow> Inl (Null_socket, w)
      | Some sk \<Rightarrow>
          (let w0 = emit [SSL_accept_called r res] w in
           if res = 0 then
             Inr (- 2, w0\<lparr>sockets := (sockets w0)(r \<mapsto> sk\<lparr>eventHandler := None\<rparr>)\<rparr>)
           else
             (let w1 = w0\<lparr>sockets := (sockets w0)(r \<mapsto> sk\<lparr>sslAccepted := True\<rparr>)\<rparr> in
              if owner sk then
                (case sendNewConnectionEvent w1 r of
                   Inl e \<Rightarrow> Inl e
                 | Inr w2 \<Rightarrow> Inr (1, w2))
              else Inr (1, w1))))"

subsection \<open>The receive buffer\<close>

definition INITIAL_BUFFER_SIZE :: nat where
  "INITIAL_BUFFER_SIZE = 256"

text \<open>Modelled from the spec: \<^verbatim>\<open>ByteArray\<close> is declared in \<^verbatim>\<open>auxiliary.h\<close>, which is not
  among the sources; the spec calls it a dynamically-sized byte buffer. It is the list of
  its \<^verbatim>\<open>size()\<close> bytes; \<^verbatim>\<open>resize\<close> cuts or fills with zero bytes. The capacity, and the
  terminating zero that \<^verbatim>\<open>addNullTermination\<close> writes behind the last byte (outside
  \<^verbatim>\<open>size()\<close>), are not represented.\<close>

definition resize :: "nat \<Rightarrow> string \<Rightarrow> string" where
  "resize n bytes = take n bytes @ replicate (n - length bytes) (CHR 0x00)"

text \<open>One answer of the library to \<^verbatim>\<open>SSL_read\<close> followed by \<^verbatim>\<open>SSL_pending\<close>: the result of
  the read, the bytes it put into the buffer, and the number of bytes reported pending.
  \<^verbatim>\<open>SSL_read(peer, data + off, size - off)\<close> writes at most \<open>size - off\<close> bytes.\<close>

datatype ssl_reply = Reply (reply_result: int) (reply_data: string) (reply_pending: nat)

definition ssl_store :: "nat \<Rightarrow> string \<Rightarrow> string \<Rightarrow> string" where
  "ssl_store off dat bytes =
     take off bytes @ take (length bytes - off) dat @
     drop (off + min (length dat) (length bytes - off)) bytes"

datatype read_outcome =
    Read_failed int nat string
  | Read_done int nat string
  | Read_blocked

text \<open>The \<^verbatim>\<open>do ... while (pendingBytes > 0)\<close> loop of \<^verbatim>\<open>socketReadyRead\<close>, one answer of
  the library per turn. \<open>Read_failed result bytesRead bytes\<close> is the exit through
  \<^verbatim>\<open>result <= 0\<close>, \<open>Read_done\<close> the exit at the end of the loop.\<close>

fun read_loop :: "ssl_reply list \<Rightarrow> string \<Rightarrow> nat \<Rightarrow> read_outcome" where
  "read_loop [] bytes bytesRead = Read_blocked"
| "read_loop (Reply result dat pendingBytes # rest) bytes bytesRead =
     (if result \<le> 0 then Read_failed result bytesRead bytes
      else
        (let stored = ssl_store bytesRead dat bytes;
             bytesRead' = bytesRead + nat result
         in if pendingBytes > 0
            then read_loop rest (resize (bytesRead' + pendingBytes) stored) bytesRead'
            else Read_done result bytesRead' (resize bytesRead' stored)))"

record tls_script =
  ssl_accept_result :: int
  ssl_read_replies :: "ssl_reply list"

definition socketBytesReceived :: "handler_ref option \<Rightarrow> socket_ref \<Rightarrow> string \<Rightarrow> world \<Rightarrow> world" where
  "socketBytesReceived h r bytes w =
     (case h of None \<Rightarrow> w | Some h' \<Rightarrow> emit [SocketBytesReceived h' r bytes] w)"

text \<open>\<^verbatim>\<open>TLSSocket::socketReadyRead\<close>. It returns the result of the last \<^verbatim>\<open>SSL_read\<close>.\<close>

definition socketReadyRead :: "world \<Rightarrow> socket_ref \<Rightarrow> tls_script \<Rightarrow> (fault \<times> world) + (int \<times> world)" where
  "socketReadyRead w r sc =
     (case sockets w r of
        None \<Rightarrow> Inl (Null_socket, w)
      | Some sk \<Rightarrow>
          if tlsPeer sk = Session_freed then Inl (Freed_session_used, w)
          else if \<not> sslAccepted sk then acceptSSL w r (ssl_accept_result sc)
          else
            (case read_loop (ssl_read_replies sc)
                    (replicate INITIAL_BUFFER_SIZE (CHR 0x00)) 0 of
               Read_blocked \<Rightarrow> Inl (Blocked_in_read, w)
             | Read_failed result bytesRead bytes \<Rightarrow>
                 Inr (result,
                      if bytesRead \<noteq> 0
                      then socketBytesReceived (eventHandler sk) r (resize bytesRead bytes) w
                      else w)
             | Read_done result bytesRead bytes \<Rightarrow>
                 Inr (result, socketBytesReceived (eventHandler sk) r bytes w)))"

subsection \<open>TLSServer\<close>

text \<open>\<^verbatim>\<open>TLSServer::listen\<close>, with the results of \<^verbatim>\<open>socket\<close>, \<^verbatim>\<open>bind\<close> and \<^verbatim>\<open>::listen\<close>.
  \<^verbatim>\<open>startTask\<close> starts the thread that runs \<open>run_begin\<close> and the loop.\<close>

definition listen :: "world \<Rightarrow> 16 word \<Rightarrow> int \<Rightarrow> int \<Rightarrow> int \<Rightarrow> bool \<times> world" where
  "listen w port socket_result bind_result listen_result =
     (if \<not> serverIsShutdown (server w) then (False, w)
      else
        (let w1 = w\<lparr>server := (server w)\<lparr>serverSocket := socket_result\<rparr>\<rparr> in
         if socket_result < 0 then (False, w1)
         else
           (let w2 = w1\<lparr>server := (server w1)\<lparr>serverPort := port\<rparr>\<rparr> in
            if bind_result \<noteq> 0 \<or> listen_result \<noteq> 0 then
              (False, emit [Descriptor_closed socket_result]
                        (w2\<lparr>server := (server w2)\<lparr>serverSocket := - 1\<rparr>\<rparr>))
            else
              (True, w2\<lparr>server := (server w2)
                          \<lparr>serverIsRunning := True, serverIsShutdown := False\<rparr>\<rparr>))))"

definition shutdown :: "world \<Rightarrow> world" where
  "shutdown w =
     (if serverIsRunning (server w) \<and> \<not> serverIsShutdown (server w)
      then emit [Descriptor_closed (serverSocket (server w))]
             (w\<lparr>server := (server w)\<lparr>serverIsRunning := False\<rparr>\<rparr>)
      else w)"

text \<open>The statements of \<^verbatim>\<open>TLSServer::run\<close> before its loop.\<close>

definition run_begin :: "world \<Rightarrow> world" where
  "run_begin w =
     w\<lparr>server := (server w)\<lparr>activeDescriptors := {serverSocket (server w)}\<rparr>,
       maxDescriptor := serverSocket (server w),
       continueRunning := serverIsRunning (server w)\<rparr>"

text \<open>The block of the loop that handles a readable listening descriptor, with the
  result of \<^verbatim>\<open>accept\<close> and whether \<^verbatim>\<open>SSL_new\<close> gave a session. The new object is held
  by the registry; where \<^verbatim>\<open>insert\<close> finds the key taken, the local pointer is the only
  one, and the object is destroyed at the end of the block: its destructor calls
  \<^verbatim>\<open>close\<close>. (Elsewhere the model never reclaims an object.)\<close>

definition acceptConnection :: "world \<Rightarrow> int \<Rightarrow> bool \<Rightarrow> world" where
  "acceptConnection w newClientSocket tlsPeer_created =
     (if newClientSocket < 0 then w
      else if \<not> tlsPeer_created then emit [Descriptor_closed newClientSocket] w
      else
        (let r = allocated w;
             taken = (map_of (socketMap (server w)) newClientSocket \<noteq> None);
             w1 = w\<lparr>sockets := (sockets w)
                       (r \<mapsto> \<lparr>owner = True, socketDescriptor = newClientSocket,
                              tlsPeer = Session_live, sslAccepted = False,
                              eventHandler = None\<rparr>),
                    allocated := Suc r,
                    server := (server w)
                      \<lparr>activeDescriptors := insert newClientSocket (activeDescriptors (server w)),
                       socketMap := map_insert newClientSocket r (socketMap (server w))\<rparr>,
                    maxDescriptor := (if newClientSocket > maxDescriptor w
                                      then newClientSocket else maxDescriptor w)\<rparr>
         in if taken then close w1 r else w1))"

text \<open>The \<^verbatim>\<open>for\<close> loop over the descriptors \<open>0 .. maxDescriptor\<close>; \<open>tls d\<close> is what the
  library answers for the connection on descriptor \<open>d\<close>. The result carries
  \<^verbatim>\<open>newMaxDescriptor\<close>.\<close>

fun serve_descriptors ::
  "(int \<Rightarrow> tls_script) \<Rightarrow> int set \<Rightarrow> int list \<Rightarrow> int \<Rightarrow> world \<Rightarrow> (fault \<times> world) + (int \<times> world)" where
  "serve_descriptors tls readReady [] newMax w = Inr (newMax, w)"
| "serve_descriptors tls readReady (currentDescriptor # rest) newMax w =
     (if currentDescriptor \<notin> activeDescriptors (server w)
      then serve_descriptors tls readReady rest newMax w
      else if currentDescriptor \<in> readReady then
        (case map_of (socketMap (server w)) currentDescriptor of
           None \<Rightarrow> Inl (Out_of_range, w)
         | Some r \<Rightarrow>
             (case sockets w r of
                None \<Rightarrow> serve_descriptors tls readReady rest currentDescriptor w
              | Some sk \<Rightarrow>
                  (case socketReadyRead w r (tls currentDescriptor) of
                     Inl e \<Rightarrow> Inl e
                   | Inr (result, w1) \<Rightarrow>
                       serve_descriptors tls readReady rest currentDescriptor
                         (if result \<le> 0 then close w1 r else w1))))
      else serve_descriptors tls readReady rest currentDescriptor w)"

datatype select_outcome = Select_failed | Select_ready "int set"

record loop_input =
  selected :: select_outcome
  accepted :: int
  tlsPeer_created :: bool
  tls :: "int \<Rightarrow> tls_script"

text \<open>One turn of the \<^verbatim>\<open>while (continueRunning)\<close> loop. Leaving \<^verbatim>\<open>run\<close> by \<^verbatim>\<open>return\<close> is
  written as \<open>continueRunning := False\<close>: no further turn follows.\<close>

definition run_iteration :: "world \<Rightarrow> loop_input \<Rightarrow> (fault \<times> world) + world" where
  "run_iteration w inp =
     (if \<not> continueRunning w then Inr w
      else
        (case selected inp of
           Select_failed \<Rightarrow>
             Inr ((if serverIsRunning (server w)
                   then emit [Descriptor_closed (serverSocket (server w))]
                          (w\<lparr>server := (server w)\<lparr>serverIsRunning := False\<rparr>\<rparr>)
                   else w)\<lparr>continueRunning := False\<rparr>)
         | Select_ready ready \<Rightarrow>
             if \<not> serverIsRunning (server w) then Inr (w\<lparr>continueRunning := False\<rparr>)
             else
               (let w1 = (if serverSocket (server w) \<in> ready
                          then acceptConnection w (accepted inp) (tlsPeer_created inp)
                          else w);
                    readReady = ready - {serverSocket (server w)}
                in (case serve_descriptors (tls inp) readReady [0..maxDescriptor w1]
                           (serverSocket (server w1)) w1 of
                      Inl e \<Rightarrow> Inl e
                    | Inr (newMax, w2) \<Rightarrow>
                        Inr (w2\<lparr>maxDescriptor := newMax,
                                continueRunning := serverIsRunning (server w2)\<rparr>)))))"

text \<open>\<^verbatim>\<open>TLSServer::stopTask\<close>, which the task runs when \<^verbatim>\<open>run\<close> has returned: for each
  entry of the registry, clear the bit of the descriptor the connection holds now,
  release the owner, close; then empty the registry. The descriptor of a connection that
  is already closed is -1, and \<^verbatim>\<open>FD_CLR(-1, ...)\<close> is outside the \<^verbatim>\<open>fd_set\<close>: the source is
  undefined there. The model takes the one reading on which the call does no harm, and
  leaves the set as it is; no bit of a descriptor \<open>0, 1, ...\<close> is then cleared for that entry.\<close>

definition drain_entry :: "world \<Rightarrow> int \<times> socket_ref \<Rightarrow> world" where
  "drain_entry w x =
     (case sockets w (snd x) of
        None \<Rightarrow> w
      | Some sk \<Rightarrow>
          close
            (releaseOwner
               (w\<lparr>server := (server w)
                    \<lparr>activeDescriptors := activeDescriptors (server w) - {socketDescriptor sk}\<rparr>\<rparr>)
               (snd x))
            (snd x))"

definition stopTask :: "world \<Rightarrow> world" where
  "stopTask w =
     (let w1 = foldl drain_entry w (socketMap (server w))
      in w1\<lparr>server := (server w1)\<lparr>socketMap := []\<rparr>\<rparr>)"

subsection \<open>Executions\<close>

text \<open>The calls that the threads of the program make, one after the other. A fault is
  recorded in the world. The calls that follow a fault are still run: what holds for
  every list of calls holds for a program that stops at the fault, and for the threads
  that go on while the loop is blocked in a read.\<close>

datatype op =
    Listen "16 word" int int int
  | Shutdown
  | Run_begin
  | Run_iteration loop_input
  | StopTask
  | Socket_close socket_ref
  | Socket_write socket_ref string int
  | Socket_setEventHandler socket_ref "handler_ref option"

definition faulted :: "fault \<times> world \<Rightarrow> world" where
  "faulted e = (snd e)\<lparr>crashed := Some (fst e)\<rparr>"

fun exec_op :: "world \<Rightarrow> op \<Rightarrow> world" where
  "exec_op w (Listen port a b c) = snd (listen w port a b c)"
| "exec_op w Shutdown = shutdown w"
| "exec_op w Run_begin = run_begin w"
| "exec_op w (Run_iteration inp) =
     (case run_iteration w inp of Inl e \<Rightarrow> faulted e | Inr w' \<Rightarrow> w')"
| "exec_op w StopTask = stopTask w"
| "exec_op w (Socket_close r) = close w r"
| "exec_op w (Socket_write r bytes written) =
     (case write_bytes w r bytes written of Inl e \<Rightarrow> faulted e | Inr x \<Rightarrow> snd x)"
| "exec_op w (Socket_setEventHandler r h) = setEventHandler w r h"

definition execs :: "world \<Rightarrow> op list \<Rightarrow> world" where
  "execs w xs = foldl exec_op w xs"

text \<open>A server as its constructor leaves it, with event handler \<open>h\<close>. The constructor
  does not initialise \<^verbatim>\<open>_activeDescriptors\<close>: \<open>junk\<close> is whatever the memory holds.\<close>

definition new_server :: "handler_ref option \<Rightarrow> int set \<Rightarrow> world" where
  "new_server h junk =
     \<lparr>server = \<lparr>serverEventHandler = h, serverSocket = - 1, serverPort = 0,
                serverIsRunning = False, serverIsShutdown = True,
                activeDescriptors = junk, socketMap = []\<rparr>,
      sockets = (\<lambda>r. None), allocated = 0, maxDescriptor = 0,
      continueRunning = False, trace = [], crashed = None\<rparr>"

subsection \<open>Vocabulary of the properties\<close>

text \<open>The world a call leaves behind, whether it returned or faulted.\<close>

definition world_after_call :: "(fault \<times> world) + (int \<times> world) \<Rightarrow> world" where
  "world_after_call x = (case x of Inl e \<Rightarrow> snd e | Inr y \<Rightarrow> snd y)"

definition world_after :: "(fault \<times> world) + world \<Rightarrow> world" where
  "world_after x = (case x of Inl e \<Rightarrow> snd e | Inr w \<Rightarrow> w)"

text \<open>The new-connection events of a trace, and all calls into an event sink.\<close>

fun is_announcement :: "event \<Rightarrow> bool" where
  "is_announcement (TlsNewConnection h r) = True"
| "is_announcement e = False"

definition announcements :: "event list \<Rightarrow> event list" where
  "announcements es = filter is_announcement es"

fun is_notification :: "event \<Rightarrow> bool" where
  "is_notification (TlsNewConnection h r) = True"
| "is_notification (SocketBytesReceived h r bytes) = True"
| "is_notification (SocketDisconnected h r) = True"
| "is_notification e = False"

definition notifications :: "event list \<Rightarrow> event list" where
  "notifications es = filter is_notification es"

fun is_handshake :: "event \<Rightarrow> bool" where
  "is_handshake (SSL_accept_called r res) = True"
| "is_handshake e = False"

definition handshakes :: "event list \<Rightarrow> event list" where
  "handshakes es = filter is_handshake es"

text \<open>A step that leaves the flags and the event handler of the server as they are.\<close>

definition flags_kept :: "world \<Rightarrow> world \<Rightarrow> bool" where
  "flags_kept w w' \<longleftrightarrow>
     serverIsShutdown (server w') = serverIsShutdown (server w) \<and>
     serverIsRunning (server w') = serverIsRunning (server w) \<and>
     serverEventHandler (server w') = serverEventHandler (server w)"

text \<open>Answers of the library that keep the read loop turning: each read succeeds, returns
  as many bytes as its result says, no more than it was asked for (\<open>room\<close>: 256 for the
  first read, the pending count reported before for a later one), and more bytes are
  reported pending.\<close>

fun accumulating :: "nat \<Rightarrow> ssl_reply list \<Rightarrow> bool" where
  "accumulating room [] = True"
| "accumulating room (Reply result dat pendingBytes # rest) =
     (0 < result \<and> nat result = length dat \<and> length dat \<le> room \<and> 0 < pendingBytes \<and>
      accumulating pendingBytes rest)"

definition room_after :: "nat \<Rightarrow> ssl_reply list \<Rightarrow> nat" where
  "room_after room pre = (if pre = [] then room else reply_pending (last pre))"

definition received :: "ssl_reply list \<Rightarrow> string" where
  "received pre = concat (map reply_data pre)"

text \<open>Inputs of loop turns: a library that completes a handshake and has nothing to read;
  a turn in which the listening descriptor 3 is readable and \<^verbatim>\<open>accept\<close> returns \<open>d\<close>; a turn
  in which only descriptor \<open>d\<close> is readable.\<close>

definition quiet :: "int \<Rightarrow> tls_script" where
  "quiet d = \<lparr>ssl_accept_result = 1, ssl_read_replies = []\<rparr>"

definition accept_turn :: "int \<Rightarrow> loop_input" where
  "accept_turn d = \<lparr>selected = Select_ready {3}, accepted = d, tlsPeer_created = True, tls = quiet\<rparr>"

definition ready_turn :: "int \<Rightarrow> tls_script \<Rightarrow> loop_input" where
  "ready_turn d sc =
     \<lparr>selected = Select_ready {d}, accepted = - 1, tlsPeer_created = False, tls = (\<lambda>x. sc)\<rparr>"

text \<open>A server with event handler 7 that listens on descriptor 3 and whose loop has
  started; the same server after it has accepted a connection on descriptor 4 (object 0),
  completed its handshake, and the connection was given event sink 9.\<close>

definition listening :: world where
  "listening = execs (new_server (Some 7) {}) [Listen 443 3 0 0, Run_begin]"

definition serving :: world where
  "serving = execs listening
     [Run_iteration (accept_turn 4), Run_iteration (ready_turn 4 (quiet 4)),
      Socket_setEventHandler 0 (Some 9)]"

text \<open>The listening server with the connection accepted and its handshake not yet
  attempted.\<close>

definition pending :: world where
  "pending = execs listening [Run_iteration (accept_turn 4)]"

text \<open>New-connection events in their place: reading a trace from its start, \<open>hs\<close> holds the
  connections whose latest \<^verbatim>\<open>SSL_accept\<close> succeeded, and every new-connection event is for
  one of them.\<close>

fun handshaken :: "socket_ref list \<Rightarrow> event list \<Rightarrow> socket_ref list" where
  "handshaken hs [] = hs"
| "handshaken hs (SSL_accept_called r res # es) =
     handshaken (if res \<noteq> 0 then r # hs else removeAll r hs) es"
| "handshaken hs (e # es) = handshaken hs es"

fun announced_after_handshake :: "socket_ref list \<Rightarrow> event list \<Rightarrow> bool" where
  "announced_after_handshake hs [] = True"
| "announced_after_handshake hs (SSL_accept_called r res # es) =
     announced_after_handshake (if res \<noteq> 0 then r # hs else removeAll r hs) es"
| "announced_after_handshake hs (TlsNewConnection h r # es) =
     (r \<in> set hs \<and> announced_after_handshake hs es)"
| "announced_after_handshake hs (e # es) = announced_after_handshake hs es"

text \<open>Every entry of the registry refers to an object that exists, and, while the session
  of that object is live, to the object that holds the entry's descriptor.\<close>

definition registry_accurate :: "world \<Rightarrow> bool" where
  "registry_accurate w \<longleftrightarrow>
     (\<forall>d r. map_of (socketMap (server w)) d = Some r \<longrightarrow>
        r < allocated w \<and>
        (\<forall>sk. sockets w r = Some sk \<and> tlsPeer sk = Session_live \<longrightarrow> socketDescriptor sk = d))"

text \<open>A stretch of events that is in order whatever came before it, and a step that adds
  such a stretch to the trace.\<close>

definition self_sound :: "event list \<Rightarrow> bool" where
  "self_sound seg \<longleftrightarrow> (\<forall>hs. announced_after_handshake hs seg)"

definition sound_step :: "world \<Rightarrow> world \<Rightarrow> bool" where
  "sound_step w w' \<longleftrightarrow> (\<exists>seg. trace w' = trace w @ seg \<and> self_sound seg)"

definition kept_sound :: "world \<Rightarrow> world \<Rightarrow> bool" where
  "kept_sound w w' \<longleftrightarrow> registry_accurate w' \<and> sound_step w w'"

text \<open>The handshake calls of one connection; a connection that no readable descriptor is
  registered for; a step that leaves such a connection without a handshake call.\<close>

fun is_handshake_of :: "socket_ref \<Rightarrow> event \<Rightarrow> bool" where
  "is_handshake_of r (SSL_accept_called r' res) = (r' = r)"
| "is_handshake_of r e = False"

definition handshakes_of :: "socket_ref \<Rightarrow> event list \<Rightarrow> event list" where
  "handshakes_of r es = filter (is_handshake_of r) es"

definition unready :: "int set \<Rightarrow> socket_ref \<Rightarrow> world \<Rightarrow> bool" where
  "unready ready r w \<longleftrightarrow> (\<forall>d\<in>ready. map_of (socketMap (server w)) d \<noteq> Some r)"

definition left_alone :: "int set \<Rightarrow> socket_ref \<Rightarrow> world \<Rightarrow> world \<Rightarrow> bool" where
  "left_alone ready r w w' \<longleftrightarrow>
     unready ready r w' \<and> handshakes_of r (trace w') = handshakes_of r (trace w)"

text \<open>A connection that exists no later than now and is closed (or was never created).\<close>

definition closed_for_good :: "socket_ref \<Rightarrow> world \<Rightarrow> bool" where
  "closed_for_good r w \<longleftrightarrow>
     r < allocated w \<and>
     (case sockets w r of None \<Rightarrow> True | Some sk \<Rightarrow> socketDescriptor sk = - 1)"

section \<open>Properties\<close>

subsection \<open>Closing a connection\<close>

text \<open>
  C2. Writing to a connection that has been closed: \<^verbatim>\<open>close\<close> has released the session
  with \<^verbatim>\<open>SSL_free\<close> and left \<^verbatim>\<open>_tlsPeer\<close> as it was, and \<^verbatim>\<open>write\<close> passes that pointer to
  \<^verbatim>\<open>SSL_write\<close> without a test. The call does not return a non-positive number: it uses
  the freed session.
\<close>

theorem write_after_close_uses_freed_session:
  "sockets w r = Some sk \<Longrightarrow> socketDescriptor sk \<noteq> - 1 \<Longrightarrow>
   write_bytes (close w r) r bytes written = Inl (Freed_session_used, close w r)"
  by (auto simp: write_bytes_def close_def removeSocket_def releaseOwner_def emit_def Let_def
           split: option.splits)

theorem write_after_close_uses_freed_session_witness:
  "sockets serving 0 =
     Some \<lparr>owner = True, socketDescriptor = 4, tlsPeer = Session_live, sslAccepted = True,
           eventHandler = Some 9\<rparr> \<and>
   write_bytes (close serving 0) 0 ''abc'' 3 = Inl (Freed_session_used, close serving 0)"
proof -
  have s: "sockets serving 0 =
     Some \<lparr>owner = True, socketDescriptor = 4, tlsPeer = Session_live, sslAccepted = True,
           eventHandler = Some 9\<rparr>"
    by code_simp
  show ?thesis
    using s write_after_close_uses_freed_session[OF s, of "''abc''" 3] by simp
qed

subsection \<open>The read loop\<close>

lemma ssl_store_fits:
  "length dat \<le> room \<Longrightarrow> length bytes = off + room \<Longrightarrow>
   ssl_store off dat bytes = take off bytes @ dat @ drop (off + length dat) bytes"
  by (simp add: ssl_store_def min_def)

lemma resize_store:
  "length dat \<le> room \<Longrightarrow> length bytes = off + room \<Longrightarrow>
   take (off + length dat) (resize (off + length dat + p) (ssl_store off dat bytes)) =
   take off bytes @ dat"
  by (simp add: ssl_store_fits resize_def)

lemma length_resize: "length (resize n bytes) = n"
  by (simp add: resize_def)

text \<open>While the answers are accumulating, the first \<open>bytesRead\<close> bytes of the buffer are
  the bytes received so far, and the buffer has room for what is reported pending.\<close>

lemma read_loop_accumulating:
  "accumulating room pre \<Longrightarrow> length bytes = bytesRead + room \<Longrightarrow>
   \<exists>bytes'. read_loop (pre @ rest) bytes bytesRead =
               read_loop rest bytes' (bytesRead + length (received pre)) \<and>
             length bytes' = bytesRead + length (received pre) + room_after room pre \<and>
             take (bytesRead + length (received pre)) bytes' = take bytesRead bytes @ received pre"
proof (induction pre arbitrary: room bytes bytesRead)
  case Nil
  then show ?case
    by (auto simp: received_def room_after_def intro: exI[where x = bytes])
next
  case (Cons x pre)
  obtain result dat p where x: "x = Reply result dat p" by (cases x)
  from Cons.prems x have fit: "0 < result" "nat result = length dat" "length dat \<le> room" "0 < p"
    and acc: "accumulating p pre" by simp_all
  let ?b = "resize (bytesRead + length dat + p) (ssl_store bytesRead dat bytes)"
  have len: "length ?b = (bytesRead + length dat) + p" by (simp add: length_resize)
  from Cons.IH[OF acc len] obtain bytes' where
    b: "read_loop (pre @ rest) ?b (bytesRead + length dat) =
          read_loop rest bytes' (bytesRead + length dat + length (received pre))"
       "length bytes' = bytesRead + length dat + length (received pre) + room_after p pre"
       "take (bytesRead + length dat + length (received pre)) bytes' =
          take (bytesRead + length dat) ?b @ received pre"
    by blast
  have step: "read_loop ((x # pre) @ rest) bytes bytesRead =
              read_loop (pre @ rest) ?b (bytesRead + length dat)"
    using fit x by (simp add: Let_def)
  have rm: "room_after room (x # pre) = room_after p pre"
    by (simp add: room_after_def x)
  have rc: "received (x # pre) = dat @ received pre"
    by (simp add: received_def x)
  have tk: "take (bytesRead + length dat) ?b = take bytesRead bytes @ dat"
    using resize_store[OF fit(3) Cons.prems(2)] by simp
  show ?case
    apply (rule exI[where x = bytes'])
    using b step rm rc tk by (simp add: add.assoc)
qed

lemma read_loop_done:
  assumes "accumulating INITIAL_BUFFER_SIZE pre"
    and "0 < result" and "nat result = length dat"
    and "length dat \<le> room_after INITIAL_BUFFER_SIZE pre"
  shows "read_loop (pre @ Reply result dat 0 # rest) (replicate INITIAL_BUFFER_SIZE (CHR 0x00)) 0 =
         Read_done result (length (received pre) + length dat) (received pre @ dat)"
proof -
  let ?z = "replicate INITIAL_BUFFER_SIZE (CHR 0x00)"
  have "length ?z = 0 + INITIAL_BUFFER_SIZE" by simp
  from read_loop_accumulating[OF assms(1) this, where rest = "Reply result dat 0 # rest"]
  obtain bytes' where
    b: "read_loop (pre @ Reply result dat 0 # rest) ?z 0 =
          read_loop (Reply result dat 0 # rest) bytes' (length (received pre))"
       "length bytes' = length (received pre) + room_after INITIAL_BUFFER_SIZE pre"
       "take (length (received pre)) bytes' = received pre"
    by auto
  have "resize (length (received pre) + length dat) (ssl_store (length (received pre)) dat bytes') =
        received pre @ dat"
    using resize_store[OF assms(4) b(2), where p = 0] b(3)
    by (simp add: length_resize)
  then show ?thesis
    using b(1) assms(2,3) by (simp add: Let_def)
qed

lemma read_loop_failed:
  assumes "accumulating INITIAL_BUFFER_SIZE pre" and "result \<le> 0"
  shows "\<exists>bytes. read_loop (pre @ Reply result dat p # rest)
                    (replicate INITIAL_BUFFER_SIZE (CHR 0x00)) 0 =
                  Read_failed result (length (received pre)) bytes \<and>
                resize (length (received pre)) bytes = received pre"
proof -
  let ?z = "replicate INITIAL_BUFFER_SIZE (CHR 0x00)"
  have "length ?z = 0 + INITIAL_BUFFER_SIZE" by simp
  from read_loop_accumulating[OF assms(1) this, where rest = "Reply result dat p # rest"]
  obtain bytes' where
    b: "read_loop (pre @ Reply result dat p # rest) ?z 0 =
          read_loop (Reply result dat p # rest) bytes' (length (received pre))"
       "length bytes' = length (received pre) + room_after INITIAL_BUFFER_SIZE pre"
       "take (length (received pre)) bytes' = received pre"
    by auto
  have "resize (length (received pre)) bytes' = received pre"
    using b(2,3) by (simp add: resize_def)
  then show ?thesis using b(1) assms(2) by simp
qed

text \<open>
  C3. Read buffering. An established connection (live session, handshake done) is told to
  read. The first \<^verbatim>\<open>SSL_read\<close> obtains the \<open>n\<close> bytes \<open>d1\<close> (\<open>0 < n\<close>, and \<open>n\<close> is at most the
  256 bytes the buffer holds), and \<^verbatim>\<open>SSL_pending\<close> then reports \<open>k\<close> buffered bytes; for
  \<open>k > 0\<close> the next read hands over these \<open>k\<close> bytes \<open>d2\<close> and nothing more is pending.
  Then the call notifies the event sink of the connection exactly once, with the \<open>n + k\<close>
  bytes \<open>d1 @ d2\<close>: that one bytes-received event is all it adds to the trace (nothing,
  where no sink is attached). It returns the result of the last read.
\<close>

theorem read_buffering:
  assumes "sockets w r = Some sk" and "tlsPeer sk = Session_live" and "sslAccepted sk"
    and "0 < n" and "n \<le> INITIAL_BUFFER_SIZE" and "length d1 = n" and "length d2 = k"
    and "ssl_read_replies sc =
           Reply (int n) d1 k # (if k = 0 then rest else Reply (int k) d2 0 # rest)"
  shows "socketReadyRead w r sc =
           Inr (if k = 0 then int n else int k,
                emit (case eventHandler sk of
                        None \<Rightarrow> []
                      | Some h \<Rightarrow> [SocketBytesReceived h r (d1 @ d2)]) w) \<and>
         length (d1 @ d2) = n + k \<and>
         trace (world_after_call (socketReadyRead w r sc)) =
           trace w @ (case eventHandler sk of
                        None \<Rightarrow> []
                      | Some h \<Rightarrow> [SocketBytesReceived h r (d1 @ d2)])"
proof (cases "k = 0")
  case True
  have "read_loop ([] @ Reply (int n) d1 0 # rest) (replicate INITIAL_BUFFER_SIZE (CHR 0x00)) 0 =
        Read_done (int n) (length (received []) + length d1) (received [] @ d1)"
    by (rule read_loop_done) (use assms in \<open>simp_all add: room_after_def\<close>)
  then show ?thesis
    using assms True
    by (auto simp: socketReadyRead_def socketBytesReceived_def received_def emit_def
             world_after_call_def split: option.splits)
next
  case False
  have "read_loop ([Reply (int n) d1 k] @ Reply (int k) d2 0 # rest)
          (replicate INITIAL_BUFFER_SIZE (CHR 0x00)) 0 =
        Read_done (int k) (length (received [Reply (int n) d1 k]) + length d2)
          (received [Reply (int n) d1 k] @ d2)"
    by (rule read_loop_done) (use assms False in \<open>simp_all add: room_after_def\<close>)
  then show ?thesis
    using assms False
    by (auto simp: socketReadyRead_def socketBytesReceived_def received_def emit_def
             world_after_call_def split: option.splits)
qed

theorem read_buffering_witness:
  "sockets serving 0 =
     Some \<lparr>owner = True, socketDescriptor = 4, tlsPeer = Session_live, sslAccepted = True,
           eventHandler = Some 9\<rparr> \<and>
   socketReadyRead serving 0
     \<lparr>ssl_accept_result = 1, ssl_read_replies = [Reply 3 ''abc'' 2, Reply 2 ''de'' 0]\<rparr> =
     Inr (2, emit [SocketBytesReceived 9 0 ''abcde''] serving)"
proof -
  have s: "sockets serving 0 =
     Some \<lparr>owner = True, socketDescriptor = 4, tlsPeer = Session_live, sslAccepted = True,
           eventHandler = Some 9\<rparr>"
    by code_simp
  show ?thesis
    using s read_buffering[OF s, of 3 "''abc''" "''de''" 2
            "\<lparr>ssl_accept_result = 1, ssl_read_replies = [Reply 3 ''abc'' 2, Reply 2 ''de'' 0]\<rparr>" "[]"]
    by (simp add: INITIAL_BUFFER_SIZE_def)
qed

text \<open>
  C4. A failing read after bytes were accumulated. An established connection is told to
  read; the reads \<open>pre\<close> (at least one) succeed with more bytes reported pending each
  time, and the next \<^verbatim>\<open>SSL_read\<close> returns \<open>result \<le> 0\<close>. Then the bytes received by \<open>pre\<close>
  are delivered to the event sink of the connection in one notification (none, where no
  sink is attached), and the call returns the failing \<open>result\<close>.
\<close>

theorem bytes_before_failure:
  assumes "sockets w r = Some sk" and "tlsPeer sk = Session_live" and "sslAccepted sk"
    and "accumulating INITIAL_BUFFER_SIZE pre" and "pre \<noteq> []" and "result \<le> 0"
    and "ssl_read_replies sc = pre @ Reply result dat p # rest"
  shows "socketReadyRead w r sc =
           Inr (result,
                emit (case eventHandler sk of
                        None \<Rightarrow> []
                      | Some h \<Rightarrow> [SocketBytesReceived h r (received pre)]) w) \<and>
         received pre \<noteq> [] \<and>
         trace (world_after_call (socketReadyRead w r sc)) =
           trace w @ (case eventHandler sk of
                        None \<Rightarrow> []
                      | Some h \<Rightarrow> [SocketBytesReceived h r (received pre)])"
proof -
  obtain bytes where
    b: "read_loop (pre @ Reply result dat p # rest) (replicate INITIAL_BUFFER_SIZE (CHR 0x00)) 0 =
          Read_failed result (length (received pre)) bytes"
       "resize (length (received pre)) bytes = received pre"
    using read_loop_failed[OF assms(4,6)] by blast
  obtain x xs where pre: "pre = x # xs" using assms(5) by (cases pre) auto
  obtain res d q where x: "x = Reply res d q" by (cases x)
  have "received pre \<noteq> []"
    using assms(4) pre x by (auto simp: received_def)
  then show ?thesis
    using assms(1,2,3,7) b
    by (auto simp: socketReadyRead_def socketBytesReceived_def emit_def
             world_after_call_def split: option.splits)
qed

theorem bytes_before_failure_witness:
  "sockets serving 0 =
     Some \<lparr>owner = True, socketDescriptor = 4, tlsPeer = Session_live, sslAccepted = True,
           eventHandler = Some 9\<rparr> \<and>
   accumulating INITIAL_BUFFER_SIZE [Reply 3 ''abc'' 2] \<and>
   socketReadyRead serving 0
     \<lparr>ssl_accept_result = 1, ssl_read_replies = [Reply 3 ''abc'' 2, Reply (- 1) [] 0]\<rparr> =
     Inr (- 1, emit [SocketBytesReceived 9 0 ''abc''] serving)"
proof -
  have s: "sockets serving 0 =
     Some \<lparr>owner = True, socketDescriptor = 4, tlsPeer = Session_live, sslAccepted = True,
           eventHandler = Some 9\<rparr>"
    by code_simp
  have a: "accumulating INITIAL_BUFFER_SIZE [Reply 3 ''abc'' 2]"
    by (simp add: INITIAL_BUFFER_SIZE_def)
  show ?thesis
    using s a bytes_before_failure[OF s _ _ a, of "- 1"
            "\<lparr>ssl_accept_result = 1, ssl_read_replies = [Reply 3 ''abc'' 2, Reply (- 1) [] 0]\<rparr>"
            "[]" 0 "[]"]
    by (simp add: received_def)
qed

subsection \<open>The flags of the server\<close>

text \<open>Only \<open>listen\<close>, \<open>shutdown\<close> and the loop change \<^verbatim>\<open>_serverIsRunning\<close>, and only \<open>listen\<close>
  changes \<^verbatim>\<open>_serverIsShutdown\<close>: every other function keeps both.\<close>

lemma flags_kept_refl: "flags_kept w w"
  by (simp add: flags_kept_def)

lemma flags_kept_trans: "flags_kept w w1 \<Longrightarrow> flags_kept w1 w2 \<Longrightarrow> flags_kept w w2"
  by (simp add: flags_kept_def)

lemma flags_emit: "flags_kept w (emit es w)"
  by (simp add: flags_kept_def emit_def)

lemma flags_releaseOwner: "flags_kept w (releaseOwner w r)"
  by (simp add: flags_kept_def releaseOwner_def split: option.splits)

lemma flags_setEventHandler: "flags_kept w (setEventHandler w r h)"
  by (simp add: flags_kept_def setEventHandler_def split: option.splits)

lemma flags_removeSocket: "flags_kept w (removeSocket w r)"
  by (simp add: flags_kept_def removeSocket_def releaseOwner_def split: option.splits)

lemma flags_close: "flags_kept w (close w r)"
  by (simp add: flags_kept_def close_def removeSocket_def releaseOwner_def emit_def Let_def
           split: option.splits)

lemma flags_write: "flags_kept w (world_after_call (write_bytes w r bytes n))"
  by (simp add: flags_kept_def write_bytes_def world_after_call_def emit_def split: option.splits)

lemma flags_sendNewConnectionEvent: "flags_kept w (world_after (sendNewConnectionEvent w r))"
  by (simp add: flags_kept_def sendNewConnectionEvent_def world_after_def emit_def split: option.splits)

lemma flags_acceptSSL: "flags_kept w (world_after_call (acceptSSL w r res))"
  by (simp add: flags_kept_def acceptSSL_def sendNewConnectionEvent_def world_after_call_def emit_def Let_def
           split: option.splits)

lemma flags_socketBytesReceived: "flags_kept w (socketBytesReceived h r bytes w)"
  by (simp add: flags_kept_def socketBytesReceived_def emit_def split: option.splits)

lemma flags_socketReadyRead: "flags_kept w (world_after_call (socketReadyRead w r sc))"
proof (cases "sockets w r")
  case None
  then show ?thesis by (simp add: socketReadyRead_def world_after_call_def flags_kept_refl)
next
  case (Some sk)
  show ?thesis
  proof (cases "tlsPeer sk = Session_freed \<or> \<not> sslAccepted sk")
    case True
    then show ?thesis
      using Some flags_acceptSSL[of w r "ssl_accept_result sc"]
      by (auto simp: socketReadyRead_def world_after_call_def flags_kept_refl)
  next
    case False
    then show ?thesis
      using Some
      by (auto simp: socketReadyRead_def world_after_call_def flags_kept_refl flags_socketBytesReceived
               split: read_outcome.splits)
  qed
qed

lemma flags_acceptConnection: "flags_kept w (acceptConnection w d ok)"
proof -
  have "flags_kept w w1 \<Longrightarrow> flags_kept w (close w1 r)" for w1 r
    using flags_close flags_kept_trans by blast
  then show ?thesis
    by (auto simp: acceptConnection_def Let_def flags_kept_refl flags_emit)
       (simp_all add: flags_kept_def)
qed

lemma flags_serve_descriptors:
  "flags_kept w (world_after_call (serve_descriptors t ready ds m w))"
proof (induction ds arbitrary: m w)
  case Nil
  then show ?case by (simp add: world_after_call_def flags_kept_refl)
next
  case (Cons d ds)
  show ?case
  proof (cases "d \<in> activeDescriptors (server w) \<and> d \<in> ready")
    case False
    then show ?thesis using Cons.IH by auto
  next
    case True
    show ?thesis
    proof (cases "map_of (socketMap (server w)) d")
      case None
      then show ?thesis using True by (simp add: world_after_call_def flags_kept_refl)
    next
      case (Some r)
      show ?thesis
      proof (cases "sockets w r")
        case None
        then show ?thesis using True Some Cons.IH by simp
      next
        case sk: (Some sk)
        show ?thesis
        proof (cases "socketReadyRead w r (t d)")
          case (Inl e)
          then show ?thesis
            using True Some sk flags_socketReadyRead[of w r "t d"]
            by (simp add: world_after_call_def)
        next
          case (Inr x)
          obtain result w1 where x: "x = (result, w1)" by (cases x)
          have f1: "flags_kept w w1"
            using flags_socketReadyRead[of w r "t d"] Inr x by (simp add: world_after_call_def)
          have f2: "flags_kept w (if result \<le> 0 then close w1 r else w1)"
            using f1 flags_close flags_kept_trans by auto
          show ?thesis
            using True Some sk Inr x
            by (simp add: flags_kept_trans[OF f2 Cons.IH])
        qed
      qed
    qed
  qed
qed


lemma flags_drain_entry: "flags_kept w (drain_entry w x)"
proof (cases "sockets w (snd x)")
  case None
  then show ?thesis by (simp add: drain_entry_def flags_kept_refl)
next
  case (Some sk)
  let ?w1 = "w\<lparr>server := (server w)
        \<lparr>activeDescriptors := activeDescriptors (server w) - {socketDescriptor sk}\<rparr>\<rparr>"
  have "flags_kept w ?w1" by (simp add: flags_kept_def)
  then have "flags_kept w (close (releaseOwner ?w1 (snd x)) (snd x))"
    using flags_releaseOwner flags_close flags_kept_trans by blast
  then show ?thesis using Some by (simp add: drain_entry_def)
qed

lemma flags_foldl_drain: "flags_kept w (foldl drain_entry w xs)"
proof (induction xs arbitrary: w)
  case Nil
  then show ?case by (simp add: flags_kept_refl)
next
  case (Cons x xs)
  show ?case
    using flags_kept_trans[OF flags_drain_entry Cons.IH] by simp
qed

lemma flags_stopTask: "flags_kept w (stopTask w)"
  using flags_foldl_drain[of w "socketMap (server w)"]
  by (simp add: stopTask_def Let_def flags_kept_def)

lemma run_iteration_shutdown_flag:
  "serverIsShutdown (server (world_after (run_iteration w inp))) = serverIsShutdown (server w)"
proof (cases "continueRunning w \<and> serverIsRunning (server w) \<and> selected inp \<noteq> Select_failed")
  case False
  then show ?thesis
    by (auto simp: run_iteration_def world_after_def emit_def split: select_outcome.splits)
next
  case True
  then obtain ready where sel: "selected inp = Select_ready ready"
    by (cases "selected inp") auto
  let ?w1 = "if serverSocket (server w) \<in> ready
             then acceptConnection w (accepted inp) (tlsPeer_created inp) else w"
  have f1: "flags_kept w ?w1" by (simp add: flags_acceptConnection flags_kept_refl)
  let ?res = "serve_descriptors (tls inp) (ready - {serverSocket (server w)}) [0..maxDescriptor ?w1]
                (serverSocket (server ?w1)) ?w1"
  have f2: "flags_kept w (world_after_call ?res)"
    using flags_kept_trans[OF f1 flags_serve_descriptors] .
  have "world_after (run_iteration w inp) =
          (case ?res of Inl e \<Rightarrow> snd e
           | Inr y \<Rightarrow> (snd y)\<lparr>maxDescriptor := fst y,
                                continueRunning := serverIsRunning (server (snd y))\<rparr>)"
    using True sel
    by (simp add: run_iteration_def world_after_def Let_def split: sum.splits prod.splits)
  then show ?thesis
    using f2 by (auto simp: flags_kept_def world_after_call_def split: sum.splits)
qed

lemma run_iteration_running_flag:
  "serverIsRunning (server (world_after (run_iteration w inp))) \<Longrightarrow> serverIsRunning (server w)"
  by (cases "serverIsRunning (server w)")
     (auto simp: run_iteration_def world_after_def emit_def split: select_outcome.splits if_splits)

lemma run_iteration_not_running:
  "\<not> serverIsRunning (server w) \<Longrightarrow>
   trace (world_after (run_iteration w inp)) = trace w \<and>
   \<not> serverIsRunning (server (world_after (run_iteration w inp)))"
  by (auto simp: run_iteration_def world_after_def split: select_outcome.splits)

lemma faulted_server: "server (faulted e) = server (snd e)"
  by (simp add: faulted_def)

lemma faulted_trace: "trace (faulted e) = trace (snd e)"
  by (simp add: faulted_def)

lemma exec_run_iteration:
  "server (exec_op w (Run_iteration inp)) = server (world_after (run_iteration w inp)) \<and>
   trace (exec_op w (Run_iteration inp)) = trace (world_after (run_iteration w inp))"
  by (simp add: world_after_def faulted_def split: sum.splits)

lemma exec_write:
  "server (exec_op w (Socket_write r bytes n)) = server (world_after_call (write_bytes w r bytes n)) \<and>
   trace (exec_op w (Socket_write r bytes n)) = trace (world_after_call (write_bytes w r bytes n))"
  by (simp add: world_after_call_def faulted_def split: sum.splits)

lemma listen_shutdown_flag:
  "\<not> serverIsShutdown (server w) \<Longrightarrow> listen w port a b c = (False, w)"
  by (simp add: listen_def)

lemma exec_op_keeps_not_shutdown:
  assumes ns: "\<not> serverIsShutdown (server w)"
  shows "\<not> serverIsShutdown (server (exec_op w x))"
proof (cases x)
  case (Listen port a b c)
  then show ?thesis using ns by (simp add: listen_shutdown_flag)
next
  case Shutdown
  then show ?thesis using ns by (simp add: shutdown_def emit_def)
next
  case Run_begin
  then show ?thesis using ns by (simp add: run_begin_def)
next
  case (Run_iteration inp)
  then show ?thesis
    using ns exec_run_iteration[of w inp] by (simp add: run_iteration_shutdown_flag)
next
  case StopTask
  then show ?thesis using ns flags_stopTask[of w] by (simp add: flags_kept_def)
next
  case (Socket_close r)
  then show ?thesis using ns flags_close[of w r] by (simp add: flags_kept_def)
next
  case (Socket_write r bytes n)
  then show ?thesis
    using ns exec_write[of w r bytes n] flags_write[of w r bytes n] by (simp add: flags_kept_def)
next
  case (Socket_setEventHandler r h)
  then show ?thesis using ns flags_setEventHandler[of w r h] by (simp add: flags_kept_def)
qed

lemma execs_keeps_not_shutdown:
  "\<not> serverIsShutdown (server w) \<Longrightarrow> \<not> serverIsShutdown (server (execs w xs))"
proof (induction xs arbitrary: w)
  case Nil
  then show ?case by (simp add: execs_def)
next
  case (Cons x xs)
  have "\<not> serverIsShutdown (server (exec_op w x))"
    using Cons.prems by (rule exec_op_keeps_not_shutdown)
  from Cons.IH[OF this] show ?case by (simp add: execs_def)
qed

lemma listen_success:
  "fst (listen w port a b c) \<Longrightarrow> \<not> serverIsShutdown (server (snd (listen w port a b c)))"
  by (auto simp: listen_def Let_def emit_def split: if_splits)

text \<open>
  C10. A server cannot be started twice. \<open>listen\<close> is the only function that writes
  \<^verbatim>\<open>_serverIsShutdown\<close>, and it writes \<open>false\<close>. So after a \<open>listen\<close> that succeeded, whatever
  is called afterwards (\<open>shutdown\<close>, turns of the loop, \<open>stopTask\<close>, calls on connections),
  the flag stays cleared and every further \<open>listen\<close> returns \<open>false\<close>.
\<close>

theorem no_restart:
  "fst (listen w port a b c) \<Longrightarrow>
   \<not> serverIsShutdown (server (execs (snd (listen w port a b c)) xs)) \<and>
   \<not> fst (listen (execs (snd (listen w port a b c)) xs) port' a' b' c')"
  using execs_keeps_not_shutdown[OF listen_success, of w port a b c xs]
  by (simp add: listen_shutdown_flag)

theorem no_restart_witness:
  "fst (listen (new_server (Some 7) {}) 443 3 0 0) \<and>
   \<not> fst (listen (execs (snd (listen (new_server (Some 7) {}) 443 3 0 0))
              [Run_begin, Shutdown, Run_iteration (ready_turn 3 (quiet 3)), StopTask]) 443 5 0 0)"
proof -
  have l: "fst (listen (new_server (Some 7) {}) 443 3 0 0)" by code_simp
  show ?thesis
    using l no_restart[OF l, of "[Run_begin, Shutdown, Run_iteration (ready_turn 3 (quiet 3)), StopTask]"
        443 5 0 0]
    by simp
qed

lemma execs_append: "execs w (xs @ ys) = execs (execs w xs) ys"
  by (simp add: execs_def)

lemma execs_Cons: "execs w (x # xs) = execs (exec_op w x) xs"
  by (simp add: execs_def)

lemma exec_op_running_shutdown:
  assumes k: "\<not> (serverIsRunning (server w) \<and> serverIsShutdown (server w))"
  shows "\<not> (serverIsRunning (server (exec_op w x)) \<and> serverIsShutdown (server (exec_op w x)))"
proof (cases x)
  case (Listen port a b c)
  then show ?thesis using k by (auto simp: listen_def Let_def emit_def)
next
  case Shutdown
  then show ?thesis using k by (simp add: shutdown_def emit_def)
next
  case Run_begin
  then show ?thesis using k by (simp add: run_begin_def)
next
  case (Run_iteration inp)
  then show ?thesis
    using k exec_run_iteration[of w inp] run_iteration_running_flag[of w inp]
    by (auto simp: run_iteration_shutdown_flag)
next
  case StopTask
  then show ?thesis using k flags_stopTask[of w] by (simp add: flags_kept_def)
next
  case (Socket_close r)
  then show ?thesis using k flags_close[of w r] by (simp add: flags_kept_def)
next
  case (Socket_write r bytes n)
  then show ?thesis
    using k exec_write[of w r bytes n] flags_write[of w r bytes n] by (simp add: flags_kept_def)
next
  case (Socket_setEventHandler r h)
  then show ?thesis using k flags_setEventHandler[of w r h] by (simp add: flags_kept_def)
qed

lemma execs_running_shutdown:
  "\<not> (serverIsRunning (server w) \<and> serverIsShutdown (server w)) \<Longrightarrow>
   \<not> (serverIsRunning (server (execs w xs)) \<and> serverIsShutdown (server (execs w xs)))"
proof (induction xs arbitrary: w)
  case Nil
  then show ?case by (simp add: execs_def)
next
  case (Cons x xs)
  have "\<not> (serverIsRunning (server (exec_op w x)) \<and> serverIsShutdown (server (exec_op w x)))"
    using Cons.prems by (rule exec_op_running_shutdown)
  from Cons.IH[OF this] show ?case by (simp add: execs_Cons)
qed

text \<open>
  C8. The guard and the failures of \<open>listen\<close>, in any state \<open>w\<close> that a server reaches from
  its construction. If the server is running, or \<^verbatim>\<open>_serverIsShutdown\<close> is cleared, \<open>listen\<close>
  returns \<open>false\<close> and changes nothing, so the listener of the first call stays as it is; in
  particular a second \<open>listen\<close> right after one that succeeded fails. If the guard is passed
  and \<^verbatim>\<open>socket\<close>, \<^verbatim>\<open>bind\<close> or \<^verbatim>\<open>::listen\<close> fails (\<open>a < 0\<close>, \<open>b \<noteq> 0\<close>, \<open>c \<noteq> 0\<close>), \<open>listen\<close>
  returns \<open>false\<close>, the server is not running and the guard is still open: a further
  \<open>listen\<close> whose system calls succeed returns \<open>true\<close>.
\<close>

theorem listen_guard:
  assumes "w = execs (new_server h junk) xs"
  shows "(serverIsRunning (server w) \<or> \<not> serverIsShutdown (server w) \<longrightarrow>
            listen w port a b c = (False, w)) \<and>
         (serverIsShutdown (server w) \<and> (a < 0 \<or> b \<noteq> 0 \<or> c \<noteq> 0) \<longrightarrow>
            \<not> fst (listen w port a b c) \<and>
            \<not> serverIsRunning (server (snd (listen w port a b c))) \<and>
            serverIsShutdown (server (snd (listen w port a b c))) \<and>
            (0 \<le> a' \<longrightarrow> fst (listen (snd (listen w port a b c)) port' a' 0 0))) \<and>
         (fst (listen w port a b c) \<longrightarrow>
            listen (snd (listen w port a b c)) port' a' b' c' =
              (False, snd (listen w port a b c)))"
proof -
  have "\<not> (serverIsRunning (server (new_server h junk)) \<and>
            serverIsShutdown (server (new_server h junk)))"
    by (simp add: new_server_def)
  then have k: "\<not> (serverIsRunning (server w) \<and> serverIsShutdown (server w))"
    unfolding assms by (rule execs_running_shutdown)
  have 1: "serverIsRunning (server w) \<or> \<not> serverIsShutdown (server w) \<longrightarrow>
            listen w port a b c = (False, w)"
    using k by (auto simp: listen_shutdown_flag)
  have 2: "serverIsShutdown (server w) \<and> (a < 0 \<or> b \<noteq> 0 \<or> c \<noteq> 0) \<longrightarrow>
            \<not> fst (listen w port a b c) \<and>
            \<not> serverIsRunning (server (snd (listen w port a b c))) \<and>
            serverIsShutdown (server (snd (listen w port a b c))) \<and>
            (0 \<le> a' \<longrightarrow> fst (listen (snd (listen w port a b c)) port' a' 0 0))"
    using k by (auto simp: listen_def Let_def emit_def)
  have 3: "fst (listen w port a b c) \<longrightarrow>
            listen (snd (listen w port a b c)) port' a' b' c' = (False, snd (listen w port a b c))"
    using listen_success[of w port a b c] by (simp add: listen_shutdown_flag)
  from 1 2 3 show ?thesis by blast
qed

theorem listen_guard_witness:
  "serverIsRunning (server serving) \<and>
   listen serving 8443 5 0 0 = (False, serving) \<and>
   serverIsShutdown (server (new_server (Some 7) {})) \<and>
   \<not> fst (listen (new_server (Some 7) {}) 443 3 1 0) \<and>
   \<not> serverIsRunning (server (snd (listen (new_server (Some 7) {}) 443 3 1 0))) \<and>
   fst (listen (snd (listen (new_server (Some 7) {}) 443 3 1 0)) 443 3 0 0) \<and>
   fst (listen (new_server (Some 7) {}) 443 3 0 0) \<and>
   listen (snd (listen (new_server (Some 7) {}) 443 3 0 0)) 443 5 0 0 =
     (False, snd (listen (new_server (Some 7) {}) 443 3 0 0))"
proof -
  have r: "serverIsRunning (server serving)" by code_simp
  have e: "serving = execs (new_server (Some 7) {})
             [Listen 443 3 0 0, Run_begin, Run_iteration (accept_turn 4),
              Run_iteration (ready_turn 4 (quiet 4)), Socket_setEventHandler 0 (Some 9)]"
    by (simp add: serving_def listening_def execs_def)
  have n: "new_server (Some 7) {} = execs (new_server (Some 7) {}) []"
    by (simp add: execs_def)
  have s: "serverIsShutdown (server (new_server (Some 7) {}))" by (simp add: new_server_def)
  have l: "fst (listen (new_server (Some 7) {}) 443 3 0 0)" by code_simp
  show ?thesis
    using r s l
      listen_guard[OF e, where port = 8443 and a = 5 and b = 0 and c = 0]
      listen_guard[OF n, where port = 443 and a = 3 and b = 1 and c = 0 and port' = 443 and a' = 3]
      listen_guard[OF n, where port = 443 and a = 3 and b = 0 and c = 0 and port' = 443 and a' = 5
        and b' = 0 and c' = 0]
    by simp
qed

subsection \<open>After shutdown\<close>

lemma announcements_append: "announcements (xs @ ys) = announcements xs @ announcements ys"
  by (simp add: announcements_def)

lemma trace_releaseOwner: "trace (releaseOwner w r) = trace w"
  by (simp add: releaseOwner_def split: option.splits)

lemma trace_removeSocket: "trace (removeSocket w r) = trace w"
  by (simp add: removeSocket_def trace_releaseOwner split: option.splits)

lemma announcements_close: "announcements (trace (close w r)) = announcements (trace w)"
  by (simp add: close_def Let_def emit_def trace_removeSocket announcements_def
           split: option.splits)

lemma announcements_drain_entry: "announcements (trace (drain_entry w x)) = announcements (trace w)"
  by (simp add: drain_entry_def announcements_close trace_releaseOwner split: option.splits)

lemma announcements_foldl_drain:
  "announcements (trace (foldl drain_entry w xs)) = announcements (trace w)"
  by (induction xs arbitrary: w) (simp_all add: announcements_drain_entry)

lemma announcements_stopTask: "announcements (trace (stopTask w)) = announcements (trace w)"
  by (simp add: stopTask_def Let_def announcements_foldl_drain)

lemma announcements_acceptSSL_not_running:
  "\<not> serverIsRunning (server w) \<Longrightarrow>
   announcements (trace (world_after_call (acceptSSL w r res))) = announcements (trace w)"
  by (simp add: acceptSSL_def sendNewConnectionEvent_def world_after_call_def emit_def Let_def
        announcements_def split: option.splits)

lemma exec_op_after_shutdown:
  assumes q: "\<not> serverIsRunning (server w)" "\<not> serverIsShutdown (server w)"
  shows "\<not> serverIsRunning (server (exec_op w x)) \<and> \<not> serverIsShutdown (server (exec_op w x)) \<and>
         announcements (trace (exec_op w x)) = announcements (trace w)"
proof (cases x)
  case (Listen port a b c)
  then show ?thesis using q by (simp add: listen_shutdown_flag)
next
  case Shutdown
  then show ?thesis using q by (simp add: shutdown_def)
next
  case Run_begin
  then show ?thesis using q by (simp add: run_begin_def)
next
  case (Run_iteration inp)
  then show ?thesis
    using q exec_run_iteration[of w inp] run_iteration_not_running[of w inp]
    by (simp add: run_iteration_shutdown_flag)
next
  case StopTask
  then show ?thesis using q flags_stopTask[of w] by (simp add: flags_kept_def announcements_stopTask)
next
  case (Socket_close r)
  then show ?thesis using q flags_close[of w r] by (simp add: flags_kept_def announcements_close)
next
  case (Socket_write r bytes n)
  have "announcements (trace (world_after_call (write_bytes w r bytes n))) = announcements (trace w)"
    by (simp add: write_bytes_def world_after_call_def emit_def announcements_def split: option.splits)
  then show ?thesis
    using Socket_write q exec_write[of w r bytes n] flags_write[of w r bytes n]
    by (simp add: flags_kept_def)
next
  case (Socket_setEventHandler r h)
  then show ?thesis
    using q flags_setEventHandler[of w r h]
    by (simp add: flags_kept_def) (simp add: setEventHandler_def split: option.splits)
qed

lemma execs_after_shutdown:
  "\<not> serverIsRunning (server w) \<Longrightarrow> \<not> serverIsShutdown (server w) \<Longrightarrow>
   \<not> serverIsRunning (server (execs w xs)) \<and> \<not> serverIsShutdown (server (execs w xs)) \<and>
   announcements (trace (execs w xs)) = announcements (trace w)"
proof (induction xs arbitrary: w)
  case Nil
  then show ?case by (simp add: execs_def)
next
  case (Cons x xs)
  have s: "\<not> serverIsRunning (server (exec_op w x)) \<and> \<not> serverIsShutdown (server (exec_op w x)) \<and>
        announcements (trace (exec_op w x)) = announcements (trace w)"
    using Cons.prems by (simp add: exec_op_after_shutdown)
  with Cons.IH[of "exec_op w x"] show ?case by (simp add: execs_Cons)
qed

text \<open>
  C6. Once \<open>shutdown\<close> has been called on a server that \<open>listen\<close> has started
  (\<^verbatim>\<open>_serverIsShutdown\<close> is cleared, as it is in every state in which the server runs), the
  trace never gets another new-connection event, whatever is called afterwards; and a
  handshake that was in flight and completes at any later moment (\<open>acceptSSL\<close> with any
  result of \<^verbatim>\<open>SSL_accept\<close>) adds none either.
\<close>

theorem silent_after_shutdown:
  assumes "\<not> serverIsShutdown (server w)"
  shows "announcements (trace (execs (shutdown w) xs)) = announcements (trace w) \<and>
         announcements (trace (world_after_call (acceptSSL (execs (shutdown w) xs) r res))) =
           announcements (trace w)"
proof -
  have s: "\<not> serverIsRunning (server (shutdown w))" "\<not> serverIsShutdown (server (shutdown w))"
       "announcements (trace (shutdown w)) = announcements (trace w)"
    using assms by (simp_all add: shutdown_def emit_def announcements_def)
  from execs_after_shutdown[OF s(1,2), of xs] s(3) announcements_acceptSSL_not_running
  show ?thesis by simp
qed

theorem silent_after_shutdown_witness:
  "\<not> serverIsShutdown (server (execs serving [Run_iteration (accept_turn 5)])) \<and>
   announcements (trace (execs serving [Run_iteration (accept_turn 5)])) = [TlsNewConnection 7 0] \<and>
   announcements (trace (execs (shutdown (execs serving [Run_iteration (accept_turn 5)]))
      [Run_iteration (ready_turn 5 (quiet 5))])) = [TlsNewConnection 7 0] \<and>
   announcements (trace (world_after_call (acceptSSL
      (execs (shutdown (execs serving [Run_iteration (accept_turn 5)]))
         [Run_iteration (ready_turn 5 (quiet 5))]) 1 1))) = [TlsNewConnection 7 0]"
proof -
  have s: "\<not> serverIsShutdown (server (execs serving [Run_iteration (accept_turn 5)]))"
    by code_simp
  have a: "announcements (trace (execs serving [Run_iteration (accept_turn 5)])) =
           [TlsNewConnection 7 0]"
    by code_simp
  show ?thesis
    using s a silent_after_shutdown[OF s, of "[Run_iteration (ready_turn 5 (quiet 5))]" 1 1]
    by simp
qed

subsection \<open>The drain\<close>

text \<open>
  C5. The interest set and the registry after a drain. A connection on descriptor 4 is
  established; \<open>shutdown\<close> is called; the connection is closed by its user before the loop
  thread wakes up (\<open>removeSocket\<close> does nothing, since the server is no longer running, and
  the connection sets its descriptor to -1); the loop leaves and \<open>stopTask\<close> runs. For that
  entry \<open>stopTask\<close> clears the bit of \<^verbatim>\<open>tlsSocket->_socketDescriptor\<close>, which is -1, and then
  empties the registry: descriptor 4 stays in the interest set with no entry in the
  registry, and it is not the listening descriptor.
\<close>

theorem drain_leaves_descriptor:
  "activeDescriptors (server (execs serving
       [Shutdown, Socket_close 0, Run_iteration (ready_turn 3 (quiet 3)), StopTask])) = {3, 4} \<and>
   socketMap (server (execs serving
       [Shutdown, Socket_close 0, Run_iteration (ready_turn 3 (quiet 3)), StopTask])) = [] \<and>
   serverSocket (server (execs serving
       [Shutdown, Socket_close 0, Run_iteration (ready_turn 3 (quiet 3)), StopTask])) = 3 \<and>
   crashed (execs serving
       [Shutdown, Socket_close 0, Run_iteration (ready_turn 3 (quiet 3)), StopTask]) = None"
  by code_simp

subsection \<open>A handshake that fails\<close>

lemma notifications_close_without_sink:
  "sockets w r = Some sk \<Longrightarrow> eventHandler sk = None \<Longrightarrow>
   notifications (trace (close w r)) = notifications (trace w)"
  by (simp add: close_def Let_def emit_def trace_removeSocket notifications_def
        split: option.splits)

text \<open>
  Where \<^verbatim>\<open>SSL_accept\<close> returns 0, the one value that \<open>acceptSSL\<close> tests for: the call returns
  -2; in the world it returns, the event sink of the connection is already cleared; the
  only event it added is the library call; and the \<open>close\<close> by which the loop then tears
  the connection down adds no call into any event sink.
\<close>

lemma failed_handshake_is_silent:
  assumes "sockets w r = Some sk" and "tlsPeer sk = Session_live" and "\<not> sslAccepted sk"
    and "ssl_accept_result sc = 0"
  shows "socketReadyRead w r sc = Inr (- 2, world_after_call (socketReadyRead w r sc)) \<and>
         sockets (world_after_call (socketReadyRead w r sc)) r = Some (sk\<lparr>eventHandler := None\<rparr>) \<and>
         trace (world_after_call (socketReadyRead w r sc)) = trace w @ [SSL_accept_called r 0] \<and>
         notifications (trace (close (world_after_call (socketReadyRead w r sc)) r)) =
           notifications (trace w)"
proof -
  let ?w1 = "(emit [SSL_accept_called r 0] w)
               \<lparr>sockets := (sockets (emit [SSL_accept_called r 0] w))(r \<mapsto> sk\<lparr>eventHandler := None\<rparr>)\<rparr>"
  have r: "socketReadyRead w r sc = Inr (- 2, ?w1)"
    using assms by (simp add: socketReadyRead_def acceptSSL_def Let_def)
  have s: "sockets ?w1 r = Some (sk\<lparr>eventHandler := None\<rparr>)" by simp
  have t: "trace ?w1 = trace w @ [SSL_accept_called r 0]" by (simp add: emit_def)
  have "notifications (trace (close ?w1 r)) = notifications (trace ?w1)"
    by (rule notifications_close_without_sink[OF s]) simp
  then have c: "notifications (trace (close ?w1 r)) = notifications (trace w)"
    using t by (simp add: notifications_def)
  show ?thesis
    using r s t c by (simp add: world_after_call_def)
qed

text \<open>
  C9. A handshake that fails with a negative result of \<^verbatim>\<open>SSL_accept\<close> (a fatal error, in the
  convention the source itself follows for \<^verbatim>\<open>SSL_read\<close> and documents for \<open>acceptSSL\<close>:
  \<open>\<le> 0\<close> is failure). \<open>acceptSSL\<close> tests \<^verbatim>\<open>! SSL_accept(_tlsPeer)\<close>, which is false for a
  negative number, and goes on as after a success. For a connection with its handshake
  pending that is registered under its descriptor: the call returns 1, so no failure is
  signalled and the loop does not tear the connection down; the connection is marked
  accepted and its event sink is not cleared; and the \<open>close\<close> that tears it down later
  sends the disconnect notification to that sink.
\<close>

theorem negative_handshake_result_keeps_sink:
  assumes "sockets w r = Some sk" and "tlsPeer sk = Session_live" and "\<not> sslAccepted sk"
    and "socketDescriptor sk \<noteq> - 1" and "eventHandler sk = Some h"
    and "map_of (socketMap (server w)) (socketDescriptor sk) = Some r"
    and "ssl_accept_result sc < 0"
  shows "socketReadyRead w r sc = Inr (1, world_after_call (socketReadyRead w r sc)) \<and>
         sockets (world_after_call (socketReadyRead w r sc)) r = Some (sk\<lparr>sslAccepted := True\<rparr>) \<and>
         notifications (trace (close (world_after_call (socketReadyRead w r sc)) r)) =
           notifications (trace (world_after_call (socketReadyRead w r sc))) @
           [SocketDisconnected h r]"
proof -
  let ?w1 = "world_after_call (socketReadyRead w r sc)"
  have r: "socketReadyRead w r sc = Inr (1, ?w1)"
    using assms
    by (auto simp: socketReadyRead_def acceptSSL_def sendNewConnectionEvent_def Let_def
          world_after_call_def emit_def split: option.splits)
  have s: "sockets ?w1 r = Some (sk\<lparr>sslAccepted := True\<rparr>)"
    using assms
    by (auto simp: socketReadyRead_def acceptSSL_def sendNewConnectionEvent_def Let_def
          world_after_call_def emit_def split: option.splits)
  have "notifications (trace (close ?w1 r)) = notifications (trace ?w1) @ [SocketDisconnected h r]"
    using s assms(4,5)
    by (simp add: close_def Let_def emit_def trace_removeSocket notifications_def
          split: option.splits)
  with r s show ?thesis by simp
qed

theorem negative_handshake_result_keeps_sink_witness:
  "sockets (setEventHandler pending 0 (Some 9)) 0 =
     Some \<lparr>owner = True, socketDescriptor = 4, tlsPeer = Session_live, sslAccepted = False,
           eventHandler = Some 9\<rparr> \<and>
   map_of (socketMap (server (setEventHandler pending 0 (Some 9)))) 4 = Some 0 \<and>
   socketReadyRead (setEventHandler pending 0 (Some 9)) 0
       \<lparr>ssl_accept_result = - 1, ssl_read_replies = []\<rparr> =
     Inr (1, world_after_call (socketReadyRead (setEventHandler pending 0 (Some 9)) 0
               \<lparr>ssl_accept_result = - 1, ssl_read_replies = []\<rparr>)) \<and>
   notifications (trace (close (world_after_call (socketReadyRead (setEventHandler pending 0 (Some 9)) 0
               \<lparr>ssl_accept_result = - 1, ssl_read_replies = []\<rparr>)) 0)) =
     [TlsNewConnection 7 0, SocketDisconnected 9 0]"
proof -
  let ?w = "setEventHandler pending 0 (Some 9)"
  let ?sc = "\<lparr>ssl_accept_result = - 1, ssl_read_replies = []\<rparr>"
  have s: "sockets ?w 0 =
     Some \<lparr>owner = True, socketDescriptor = 4, tlsPeer = Session_live, sslAccepted = False,
           eventHandler = Some 9\<rparr>"
    by code_simp
  have m: "map_of (socketMap (server ?w)) 4 = Some 0"
    by code_simp
  have t: "notifications (trace (world_after_call (socketReadyRead ?w 0 ?sc))) =
           [TlsNewConnection 7 0]"
    by code_simp
  show ?thesis
    using s m t negative_handshake_result_keeps_sink[OF s, of 9 ?sc]
    by simp
qed

subsection \<open>New-connection events follow the handshake\<close>

lemma aah_append:
  "announced_after_handshake hs (es @ es') =
     (announced_after_handshake hs es \<and> announced_after_handshake (handshaken hs es) es')"
  by (induction hs es rule: announced_after_handshake.induct) simp_all

lemma handshaken_append: "handshaken hs (es @ es') = handshaken (handshaken hs es) es'"
  by (induction hs es rule: handshaken.induct) simp_all

lemma self_sound_append: "self_sound xs \<Longrightarrow> self_sound ys \<Longrightarrow> self_sound (xs @ ys)"
  by (simp add: self_sound_def aah_append)

lemma self_sound_quiet: "announcements seg = [] \<Longrightarrow> self_sound seg"
proof -
  have "announcements seg = [] \<Longrightarrow> announced_after_handshake hs seg" for hs
    by (induction hs seg rule: announced_after_handshake.induct) (simp_all add: announcements_def)
  then show "announcements seg = [] \<Longrightarrow> self_sound seg"
    by (simp add: self_sound_def)
qed

lemma self_sound_handshake: "res \<noteq> 0 \<Longrightarrow> self_sound [SSL_accept_called r res, TlsNewConnection h r]"
  by (simp add: self_sound_def)

lemma sound_step_refl: "sound_step w w"
  by (simp add: sound_step_def self_sound_def)

lemma sound_step_trans: "sound_step w w1 \<Longrightarrow> sound_step w1 w2 \<Longrightarrow> sound_step w w2"
  by (auto simp: sound_step_def intro: self_sound_append)

lemma sound_stepI: "trace w' = trace w @ seg \<Longrightarrow> self_sound seg \<Longrightarrow> sound_step w w'"
  by (auto simp: sound_step_def)

lemma sound_step_quiet: "trace w' = trace w @ seg \<Longrightarrow> announcements seg = [] \<Longrightarrow> sound_step w w'"
  by (auto simp: sound_step_def self_sound_quiet)

lemma sound_step_same: "trace w' = trace w \<Longrightarrow> sound_step w w'"
  by (rule sound_step_quiet[where seg = "[]"]) (simp_all add: announcements_def)

lemma sound_step_aah:
  "sound_step w w' \<Longrightarrow> announced_after_handshake hs (trace w) \<Longrightarrow>
   announced_after_handshake hs (trace w')"
  by (auto simp: sound_step_def self_sound_def aah_append)


lemma map_of_map_erase: "map_of (map_erase k m) d = (if d = k then None else map_of m d)"
  by (induction m) (auto simp: map_erase_def)

lemma map_of_map_insert:
  "map_of (map_insert k v m) d = Some x \<Longrightarrow> (d = k \<and> x = v) \<or> map_of m d = Some x"
  by (induction m) (auto split: if_splits)

lemma accurate_emit: "registry_accurate (emit es w) = registry_accurate w"
  by (simp add: registry_accurate_def emit_def)

lemma accurate_releaseOwner: "registry_accurate w \<Longrightarrow> registry_accurate (releaseOwner w r)"
  by (auto simp: registry_accurate_def releaseOwner_def split: option.splits)

lemma accurate_setEventHandler: "registry_accurate w \<Longrightarrow> registry_accurate (setEventHandler w r h)"
  by (auto simp: registry_accurate_def setEventHandler_def split: option.splits)

lemma accurate_removeSocket: "registry_accurate w \<Longrightarrow> registry_accurate (removeSocket w r)"
  by (auto simp: registry_accurate_def removeSocket_def releaseOwner_def map_of_map_erase
           split: option.splits if_splits)

lemma sound_removeSocket: "sound_step w (removeSocket w r)"
  by (simp add: sound_step_same trace_removeSocket)

lemma accurate_close: "registry_accurate w \<Longrightarrow> registry_accurate (close w r)"
  by (auto simp: registry_accurate_def close_def Let_def emit_def removeSocket_def releaseOwner_def
        map_of_map_erase split: option.splits if_splits)

lemma sound_close: "sound_step w (close w r)"
proof -
  have "\<exists>seg. trace (close w r) = trace w @ seg \<and> announcements seg = []"
    by (auto simp: close_def Let_def emit_def trace_removeSocket announcements_def
        split: option.splits)
  then show ?thesis by (auto intro: sound_step_quiet)
qed


lemma accurate_acceptSSL:
  "registry_accurate w \<Longrightarrow> registry_accurate (world_after_call (acceptSSL w r res))"
  by (auto simp: registry_accurate_def acceptSSL_def sendNewConnectionEvent_def world_after_call_def
        Let_def emit_def split: option.splits if_splits)

lemma sound_acceptSSL:
  assumes "sockets w r = Some sk" "map_of (socketMap (server w)) (socketDescriptor sk) = Some r"
  shows "sound_step w (world_after_call (acceptSSL w r res))"
proof (cases "res = 0")
  case True
  then have "trace (world_after_call (acceptSSL w r res)) = trace w @ [SSL_accept_called r res]"
    using assms by (simp add: acceptSSL_def world_after_call_def Let_def emit_def)
  then show ?thesis by (rule sound_step_quiet) (simp add: announcements_def)
next
  case False
  then have "trace (world_after_call (acceptSSL w r res)) = trace w @ [SSL_accept_called r res] \<or>
        (\<exists>h. trace (world_after_call (acceptSSL w r res)) =
               trace w @ [SSL_accept_called r res, TlsNewConnection h r])"
    using assms
    by (auto simp: acceptSSL_def sendNewConnectionEvent_def world_after_call_def Let_def emit_def
          split: option.splits)
  then show ?thesis
  proof
    assume "trace (world_after_call (acceptSSL w r res)) = trace w @ [SSL_accept_called r res]"
    then show ?thesis by (rule sound_step_quiet) (simp add: announcements_def)
  next
    assume "\<exists>h. trace (world_after_call (acceptSSL w r res)) =
               trace w @ [SSL_accept_called r res, TlsNewConnection h r]"
    then show ?thesis using False by (auto intro: sound_stepI self_sound_handshake)
  qed
qed

lemma accurate_socketBytesReceived:
  "registry_accurate (socketBytesReceived h r bytes w) = registry_accurate w"
  by (simp add: socketBytesReceived_def accurate_emit split: option.splits)

lemma sound_socketBytesReceived: "sound_step w (socketBytesReceived h r bytes w)"
proof (cases h)
  case None
  then show ?thesis by (simp add: socketBytesReceived_def sound_step_refl)
next
  case (Some h')
  have "trace (socketBytesReceived h r bytes w) = trace w @ [SocketBytesReceived h' r bytes]"
    using Some by (simp add: socketBytesReceived_def emit_def)
  then show ?thesis by (rule sound_step_quiet) (simp add: announcements_def)
qed

lemma socketReadyRead_cases:
  assumes "sockets w r = Some sk"
  shows "world_after_call (socketReadyRead w r sc) = w \<or>
         world_after_call (socketReadyRead w r sc) =
           world_after_call (acceptSSL w r (ssl_accept_result sc)) \<or>
         (\<exists>bytes. world_after_call (socketReadyRead w r sc) =
                   socketBytesReceived (eventHandler sk) r bytes w)"
  using assms
  by (auto simp: socketReadyRead_def world_after_call_def split: read_outcome.splits)

lemma accurate_socketReadyRead:
  assumes "registry_accurate w"
  shows "registry_accurate (world_after_call (socketReadyRead w r sc))"
proof (cases "sockets w r")
  case None
  then show ?thesis using assms by (simp add: socketReadyRead_def world_after_call_def)
next
  case (Some sk)
  from socketReadyRead_cases[OF Some, of sc] show ?thesis
    using assms accurate_acceptSSL[OF assms] by (auto simp: accurate_socketBytesReceived)
qed

lemma sound_socketReadyRead:
  assumes "sockets w r = Some sk" "map_of (socketMap (server w)) (socketDescriptor sk) = Some r"
  shows "sound_step w (world_after_call (socketReadyRead w r sc))"
  using socketReadyRead_cases[OF assms(1), of sc] sound_acceptSSL[OF assms]
  by (auto simp: sound_step_refl sound_socketBytesReceived)

lemma accurate_acceptConnection:
  assumes "registry_accurate w"
  shows "registry_accurate (acceptConnection w d ok)"
proof -
  let ?r = "allocated w"
  let ?w1 = "w\<lparr>sockets := (sockets w)
                 (?r \<mapsto> \<lparr>owner = True, socketDescriptor = d, tlsPeer = Session_live,
                         sslAccepted = False, eventHandler = None\<rparr>),
               allocated := Suc ?r,
               server := (server w)
                 \<lparr>activeDescriptors := insert d (activeDescriptors (server w)),
                  socketMap := map_insert d ?r (socketMap (server w))\<rparr>,
               maxDescriptor := (if d > maxDescriptor w then d else maxDescriptor w)\<rparr>"
  have "registry_accurate ?w1"
    unfolding registry_accurate_def
  proof (intro allI impI)
    fix d' r'
    assume m: "map_of (socketMap (server ?w1)) d' = Some r'"
    then have "(d' = d \<and> r' = ?r) \<or> map_of (socketMap (server w)) d' = Some r'"
      using map_of_map_insert[of d ?r "socketMap (server w)" d' r'] by simp
    then show "r' < allocated ?w1 \<and>
               (\<forall>sk. sockets ?w1 r' = Some sk \<and> tlsPeer sk = Session_live \<longrightarrow>
                  socketDescriptor sk = d')"
    proof
      assume "d' = d \<and> r' = ?r"
      then show ?thesis by simp
    next
      assume old: "map_of (socketMap (server w)) d' = Some r'"
      with assms have "r' < allocated w"
        and "\<forall>sk. sockets w r' = Some sk \<and> tlsPeer sk = Session_live \<longrightarrow> socketDescriptor sk = d'"
        by (auto simp: registry_accurate_def)
      then show ?thesis by simp
    qed
  qed
  then have "registry_accurate (close ?w1 ?r)" by (rule accurate_close)
  with \<open>registry_accurate ?w1\<close> assms show ?thesis
    by (simp add: acceptConnection_def Let_def accurate_emit)
qed

lemma sound_acceptConnection: "sound_step w (acceptConnection w d ok)"
proof -
  have c: "sound_step w w1 \<Longrightarrow> sound_step w (close w1 r)" for w1 r
    using sound_close sound_step_trans by blast
  have e: "sound_step w (emit [Descriptor_closed d] w)"
    by (rule sound_step_quiet[where seg = "[Descriptor_closed d]"])
       (simp_all add: emit_def announcements_def)
  show ?thesis
    by (auto simp: acceptConnection_def Let_def sound_step_refl e intro!: c)
       (simp_all add: sound_step_same)
qed


lemma sound_step_quiet_ex:
  "\<exists>seg. trace w' = trace w @ seg \<and> announcements seg = [] \<Longrightarrow> sound_step w w'"
  by (auto intro: sound_step_quiet)

lemma served_socket:
  assumes acc: "registry_accurate w"
    and m: "map_of (socketMap (server w)) d = Some r" and sk: "sockets w r = Some sk"
  shows "kept_sound w (world_after_call (socketReadyRead w r sc))"
proof (cases "tlsPeer sk = Session_live")
  case True
  with acc m sk have "socketDescriptor sk = d" by (auto simp: registry_accurate_def)
  with m have "map_of (socketMap (server w)) (socketDescriptor sk) = Some r" by simp
  from sound_socketReadyRead[OF sk this] accurate_socketReadyRead[OF acc]
  show ?thesis by (simp add: kept_sound_def)
next
  case False
  then have "tlsPeer sk = Session_freed" by (cases "tlsPeer sk") auto
  then have "world_after_call (socketReadyRead w r sc) = w"
    using sk by (simp add: socketReadyRead_def world_after_call_def)
  then show ?thesis using acc by (simp add: kept_sound_def sound_step_refl)
qed

lemma kept_sound_trans:
  "kept_sound w w1 \<Longrightarrow> kept_sound w1 w2 \<Longrightarrow> kept_sound w w2"
  using sound_step_trans by (auto simp: kept_sound_def)

lemma kept_sound_close: "registry_accurate w \<Longrightarrow> kept_sound w (close w r)"
  by (simp add: kept_sound_def accurate_close sound_close)

lemma kept_sound_serve_descriptors:
  "registry_accurate w \<Longrightarrow>
   kept_sound w (world_after_call (serve_descriptors t ready ds m w))"
proof (induction ds arbitrary: m w)
  case Nil
  then show ?case by (simp add: world_after_call_def kept_sound_def sound_step_refl)
next
  case (Cons d ds)
  show ?case
  proof (cases "d \<in> activeDescriptors (server w) \<and> d \<in> ready")
    case False
    then show ?thesis using Cons.IH[OF Cons.prems] by auto
  next
    case True
    show ?thesis
    proof (cases "map_of (socketMap (server w)) d")
      case None
      then show ?thesis
        using True Cons.prems by (simp add: world_after_call_def kept_sound_def sound_step_refl)
    next
      case (Some r)
      show ?thesis
      proof (cases "sockets w r")
        case None
        then show ?thesis using True Some Cons.IH[OF Cons.prems] by simp
      next
        case sk: (Some sk)
        have k1: "kept_sound w (world_after_call (socketReadyRead w r (t d)))"
          by (rule served_socket[OF Cons.prems Some sk])
        show ?thesis
        proof (cases "socketReadyRead w r (t d)")
          case (Inl e)
          then show ?thesis
            using True Some sk k1 by (simp add: world_after_call_def)
        next
          case (Inr x)
          obtain result w1 where x: "x = (result, w1)" by (cases x)
          have k2: "kept_sound w w1"
            using k1 Inr x by (simp add: world_after_call_def)
          let ?w2 = "if result \<le> 0 then close w1 r else w1"
          have k3: "kept_sound w ?w2"
            using k2 kept_sound_close[of w1 r] kept_sound_trans[OF k2]
            by (auto simp: kept_sound_def)
          then have "registry_accurate ?w2" by (simp add: kept_sound_def)
          from kept_sound_trans[OF k3 Cons.IH[OF this]]
          show ?thesis
            using True Some sk Inr x by simp
        qed
      qed
    qed
  qed
qed

lemma kept_sound_run_iteration:
  assumes "registry_accurate w"
  shows "kept_sound w (world_after (run_iteration w inp))"
proof (cases "continueRunning w \<and> serverIsRunning (server w) \<and> selected inp \<noteq> Select_failed")
  case False
  have "\<exists>seg. trace (world_after (run_iteration w inp)) = trace w @ seg \<and> announcements seg = []"
    using False
    by (auto simp: run_iteration_def world_after_def emit_def announcements_def
          split: select_outcome.splits)
  then have "sound_step w (world_after (run_iteration w inp))"
    by (rule sound_step_quiet_ex)
  moreover have "registry_accurate (world_after (run_iteration w inp))"
    using False assms
    by (auto simp: run_iteration_def world_after_def emit_def registry_accurate_def
          split: select_outcome.splits)
  ultimately show ?thesis by (simp add: kept_sound_def)
next
  case True
  then obtain ready where sel: "selected inp = Select_ready ready"
    by (cases "selected inp") auto
  let ?w1 = "if serverSocket (server w) \<in> ready
             then acceptConnection w (accepted inp) (tlsPeer_created inp) else w"
  have k1: "kept_sound w ?w1"
    using assms by (simp add: kept_sound_def accurate_acceptConnection sound_acceptConnection
        sound_step_refl)
  then have a1: "registry_accurate ?w1" by (simp add: kept_sound_def)
  let ?res = "serve_descriptors (tls inp) (ready - {serverSocket (server w)}) [0..maxDescriptor ?w1]
                (serverSocket (server ?w1)) ?w1"
  have k2: "kept_sound w (world_after_call ?res)"
    using kept_sound_trans[OF k1 kept_sound_serve_descriptors[OF a1]] .
  have "world_after (run_iteration w inp) =
          (case ?res of Inl e \<Rightarrow> snd e
           | Inr y \<Rightarrow> (snd y)\<lparr>maxDescriptor := fst y,
                                continueRunning := serverIsRunning (server (snd y))\<rparr>)"
    using True sel
    by (simp add: run_iteration_def world_after_def Let_def split: sum.splits prod.splits)
  then show ?thesis
    using k2
    by (auto simp: kept_sound_def world_after_call_def registry_accurate_def sound_step_def
          split: sum.splits)
qed

lemma kept_sound_drain_entry:
  assumes "registry_accurate w"
  shows "kept_sound w (drain_entry w x)"
proof (cases "sockets w (snd x)")
  case None
  then show ?thesis using assms by (simp add: drain_entry_def kept_sound_def sound_step_refl)
next
  case (Some sk)
  let ?w1 = "w\<lparr>server := (server w)
        \<lparr>activeDescriptors := activeDescriptors (server w) - {socketDescriptor sk}\<rparr>\<rparr>"
  have "registry_accurate ?w1" using assms by (simp add: registry_accurate_def)
  then have a: "registry_accurate (releaseOwner ?w1 (snd x))" by (rule accurate_releaseOwner)
  have "sound_step w (releaseOwner ?w1 (snd x))"
    by (rule sound_step_same) (simp add: trace_releaseOwner)
  with a have "kept_sound w (releaseOwner ?w1 (snd x))" by (simp add: kept_sound_def)
  from kept_sound_trans[OF this kept_sound_close[OF a]]
  show ?thesis using Some by (simp add: drain_entry_def)
qed

lemma kept_sound_foldl_drain:
  "registry_accurate w \<Longrightarrow> kept_sound w (foldl drain_entry w xs)"
proof (induction xs arbitrary: w)
  case Nil
  then show ?case by (simp add: kept_sound_def sound_step_refl)
next
  case (Cons x xs)
  have k: "kept_sound w (drain_entry w x)" by (rule kept_sound_drain_entry[OF Cons.prems])
  then have "registry_accurate (drain_entry w x)" by (simp add: kept_sound_def)
  from kept_sound_trans[OF k Cons.IH[OF this]] show ?case by simp
qed

lemma kept_sound_stopTask:
  assumes "registry_accurate w"
  shows "kept_sound w (stopTask w)"
  using kept_sound_foldl_drain[OF assms, of "socketMap (server w)"]
  by (simp add: stopTask_def Let_def kept_sound_def registry_accurate_def sound_step_def)

lemma kept_sound_exec_op:
  assumes a: "registry_accurate w"
  shows "kept_sound w (exec_op w x)"
proof (cases x)
  case (Listen port a b c)
  have "\<exists>seg. trace (snd (listen w port a b c)) = trace w @ seg \<and> announcements seg = []"
    by (auto simp: listen_def Let_def emit_def announcements_def)
  then have "sound_step w (snd (listen w port a b c))"
    by (rule sound_step_quiet_ex)
  moreover have "registry_accurate (snd (listen w port a b c))"
    using a by (auto simp: listen_def Let_def emit_def registry_accurate_def)
  ultimately show ?thesis using Listen by (simp add: kept_sound_def)
next
  case Shutdown
  have "\<exists>seg. trace (shutdown w) = trace w @ seg \<and> announcements seg = []"
    by (auto simp: shutdown_def emit_def announcements_def)
  then have "sound_step w (shutdown w)"
    by (rule sound_step_quiet_ex)
  moreover have "registry_accurate (shutdown w)"
    using a by (auto simp: shutdown_def emit_def registry_accurate_def)
  ultimately show ?thesis using Shutdown by (simp add: kept_sound_def)
next
  case Run_begin
  then show ?thesis
    using a by (auto simp: run_begin_def kept_sound_def registry_accurate_def intro!: sound_step_same)
next
  case (Run_iteration inp)
  have "kept_sound w (world_after (run_iteration w inp))"
    by (rule kept_sound_run_iteration[OF a])
  then show ?thesis
    using Run_iteration
    by (auto simp: world_after_def faulted_def kept_sound_def registry_accurate_def sound_step_def
          split: sum.splits)
next
  case StopTask
  then show ?thesis using kept_sound_stopTask[OF a] by simp
next
  case (Socket_close r)
  then show ?thesis using kept_sound_close[OF a] by simp
next
  case (Socket_write r bytes n)
  have "\<exists>seg. trace (world_after_call (write_bytes w r bytes n)) = trace w @ seg \<and>
          announcements seg = []"
    by (auto simp: write_bytes_def world_after_call_def emit_def announcements_def
          split: option.splits)
  then have "sound_step w (world_after_call (write_bytes w r bytes n))"
    by (rule sound_step_quiet_ex)
  moreover have "registry_accurate (world_after_call (write_bytes w r bytes n))"
    using a
    by (auto simp: write_bytes_def world_after_call_def emit_def registry_accurate_def
          split: option.splits)
  ultimately have "kept_sound w (world_after_call (write_bytes w r bytes n))"
    by (simp add: kept_sound_def)
  then show ?thesis
    using Socket_write
    by (auto simp: world_after_call_def faulted_def kept_sound_def registry_accurate_def
          sound_step_def split: sum.splits)
next
  case (Socket_setEventHandler r h)
  have "sound_step w (setEventHandler w r h)"
    by (rule sound_step_same) (simp add: setEventHandler_def split: option.splits)
  then show ?thesis
    using Socket_setEventHandler accurate_setEventHandler[OF a] by (simp add: kept_sound_def)
qed

lemma kept_sound_execs:
  "registry_accurate w \<Longrightarrow> kept_sound w (execs w xs)"
proof (induction xs arbitrary: w)
  case Nil
  then show ?case by (simp add: execs_def kept_sound_def sound_step_refl)
next
  case (Cons x xs)
  have k: "kept_sound w (exec_op w x)"
    by (rule kept_sound_exec_op[OF Cons.prems])
  then have "registry_accurate (exec_op w x)" by (simp add: kept_sound_def)
  from kept_sound_trans[OF k Cons.IH[OF this]] show ?case by (simp add: execs_Cons)
qed

lemma announcements_sound_from_start:
  "announced_after_handshake [] (trace (execs (new_server h junk) xs))"
proof -
  have "registry_accurate (new_server h junk)"
    by (simp add: registry_accurate_def new_server_def)
  from kept_sound_execs[OF this, of xs]
  have "sound_step (new_server h junk) (execs (new_server h junk) xs)"
    by (simp add: kept_sound_def)
  from sound_step_aah[OF this, of "[]"] show ?thesis
    by (simp add: new_server_def)
qed

subsection \<open>No handshake at accept time\<close>

lemma handshakes_close: "handshakes (trace (close w r)) = handshakes (trace w)"
  by (simp add: close_def Let_def emit_def trace_removeSocket handshakes_def
           split: option.splits)

lemma handshakes_acceptConnection:
  "handshakes (trace (acceptConnection w d ok)) = handshakes (trace w)"
proof -
  have c: "handshakes (trace w1) = handshakes (trace w) \<Longrightarrow>
           handshakes (trace (close w1 r)) = handshakes (trace w)" for w1 r
    by (simp add: handshakes_close)
  show ?thesis
    by (auto simp: acceptConnection_def Let_def emit_def handshakes_def intro!: c[unfolded handshakes_def])
qed

lemma announcements_acceptConnection:
  "announcements (trace (acceptConnection w d ok)) = announcements (trace w)"
proof -
  have c: "announcements (trace w1) = announcements (trace w) \<Longrightarrow>
           announcements (trace (close w1 r)) = announcements (trace w)" for w1 r
    by (simp add: announcements_close)
  show ?thesis
    by (auto simp: acceptConnection_def Let_def emit_def announcements_def
          intro!: c[unfolded announcements_def])
qed

lemma map_of_map_insert_new: "map_of m k = None \<Longrightarrow> map_of (map_insert k v m) k = Some v"
  by (induction m) (auto split: if_splits)

lemma acceptConnection_registers:
  assumes "0 \<le> d" "ok" "map_of (socketMap (server w)) d = None"
  shows "sockets (acceptConnection w d ok) (allocated w) =
           Some \<lparr>owner = True, socketDescriptor = d, tlsPeer = Session_live,
                 sslAccepted = False, eventHandler = None\<rparr> \<and>
         map_of (socketMap (server (acceptConnection w d ok))) d = Some (allocated w) \<and>
         d \<in> activeDescriptors (server (acceptConnection w d ok))"
  using assms by (simp add: acceptConnection_def Let_def map_of_map_insert_new)


lemma left_alone_trans:
  "left_alone ready r w w1 \<Longrightarrow> left_alone ready r w1 w2 \<Longrightarrow> left_alone ready r w w2"
  by (simp add: left_alone_def)

lemma left_alone_close:
  assumes "unready ready r w"
  shows "left_alone ready r w (close w r')"
proof -
  have "handshakes_of r (trace (close w r')) = handshakes_of r (trace w)"
    by (simp add: close_def Let_def emit_def trace_removeSocket handshakes_of_def
        split: option.splits)
  moreover have "unready ready r (close w r')"
    using assms
    by (auto simp: unready_def close_def Let_def emit_def removeSocket_def releaseOwner_def
          map_of_map_erase split: option.splits if_splits)
  ultimately show ?thesis by (simp add: left_alone_def)
qed

lemma socketMap_acceptSSL:
  "socketMap (server (world_after_call (acceptSSL w r res))) = socketMap (server w)"
  by (simp add: acceptSSL_def sendNewConnectionEvent_def world_after_call_def Let_def emit_def
        split: option.splits)

lemma handshakes_of_acceptSSL:
  "r' \<noteq> r \<Longrightarrow>
   handshakes_of r (trace (world_after_call (acceptSSL w r' res))) = handshakes_of r (trace w)"
  by (simp add: acceptSSL_def sendNewConnectionEvent_def world_after_call_def Let_def emit_def
        handshakes_of_def split: option.splits)

lemma left_alone_socketReadyRead:
  assumes "unready ready r w" "r' \<noteq> r"
  shows "left_alone ready r w (world_after_call (socketReadyRead w r' sc))"
proof (cases "sockets w r'")
  case None
  then show ?thesis using assms by (simp add: socketReadyRead_def world_after_call_def left_alone_def)
next
  case (Some sk)
  have b: "left_alone ready r w (socketBytesReceived h r' bytes w)" for h bytes
    using assms(1)
    by (simp add: left_alone_def unready_def socketBytesReceived_def emit_def handshakes_of_def
          split: option.splits)
  have a: "left_alone ready r w (world_after_call (acceptSSL w r' (ssl_accept_result sc)))"
    using assms by (simp add: left_alone_def unready_def socketMap_acceptSSL handshakes_of_acceptSSL)
  from socketReadyRead_cases[OF Some, of sc] show ?thesis
    using a b assms(1) by (auto simp: left_alone_def)
qed

lemma left_alone_serve_descriptors:
  "unready ready r w \<Longrightarrow>
   left_alone ready r w (world_after_call (serve_descriptors t ready ds m w))"
proof (induction ds arbitrary: m w)
  case Nil
  then show ?case by (simp add: world_after_call_def left_alone_def)
next
  case (Cons d ds)
  show ?case
  proof (cases "d \<in> activeDescriptors (server w) \<and> d \<in> ready")
    case False
    then show ?thesis using Cons.IH[OF Cons.prems] by auto
  next
    case True
    show ?thesis
    proof (cases "map_of (socketMap (server w)) d")
      case None
      then show ?thesis
        using True Cons.prems by (simp add: world_after_call_def left_alone_def)
    next
      case (Some r')
      have ne: "r' \<noteq> r" using Cons.prems True Some by (auto simp: unready_def)
      show ?thesis
      proof (cases "sockets w r'")
        case None
        then show ?thesis using True Some Cons.IH[OF Cons.prems] by simp
      next
        case sk: (Some sk)
        have k1: "left_alone ready r w (world_after_call (socketReadyRead w r' (t d)))"
          by (rule left_alone_socketReadyRead[OF Cons.prems ne])
        show ?thesis
        proof (cases "socketReadyRead w r' (t d)")
          case (Inl e)
          then show ?thesis
            using True Some sk k1 by (simp add: world_after_call_def)
        next
          case (Inr x)
          obtain result w1 where x: "x = (result, w1)" by (cases x)
          have k2: "left_alone ready r w w1"
            using k1 Inr x by (simp add: world_after_call_def)
          then have u1: "unready ready r w1" by (simp add: left_alone_def)
          let ?w2 = "if result \<le> 0 then close w1 r' else w1"
          have k3: "left_alone ready r w ?w2"
            using k2 left_alone_trans[OF k2 left_alone_close[OF u1, of r']] by auto
          then have "unready ready r ?w2" by (simp add: left_alone_def)
          from left_alone_trans[OF k3 Cons.IH[OF this]]
          show ?thesis
            using True Some sk Inr x by simp
        qed
      qed
    qed
  qed
qed

lemma unready_subset: "unready ready r w \<Longrightarrow> ready' \<subseteq> ready \<Longrightarrow> unready ready' r w"
  by (auto simp: unready_def)

lemma left_alone_acceptConnection:
  assumes "unready ready r w" "r < allocated w"
  shows "left_alone ready r w (acceptConnection w d ok)"
proof -
  let ?r = "allocated w"
  let ?w1 = "w\<lparr>sockets := (sockets w)
                 (?r \<mapsto> \<lparr>owner = True, socketDescriptor = d, tlsPeer = Session_live,
                         sslAccepted = False, eventHandler = None\<rparr>),
               allocated := Suc ?r,
               server := (server w)
                 \<lparr>activeDescriptors := insert d (activeDescriptors (server w)),
                  socketMap := map_insert d ?r (socketMap (server w))\<rparr>,
               maxDescriptor := (if d > maxDescriptor w then d else maxDescriptor w)\<rparr>"
  have "unready ready r ?w1"
    unfolding unready_def
  proof
    fix d' assume "d' \<in> ready"
    with assms(1) have old: "map_of (socketMap (server w)) d' \<noteq> Some r" by (simp add: unready_def)
    show "map_of (socketMap (server ?w1)) d' \<noteq> Some r"
    proof
      assume "map_of (socketMap (server ?w1)) d' = Some r"
      then have "(d' = d \<and> r = ?r) \<or> map_of (socketMap (server w)) d' = Some r"
        using map_of_map_insert[of d ?r "socketMap (server w)" d' r] by simp
      with old assms(2) show False by auto
    qed
  qed
  then have l1: "left_alone ready r w ?w1" by (simp add: left_alone_def)
  from left_alone_trans[OF l1 left_alone_close[OF \<open>unready ready r ?w1\<close>, of ?r]]
  have l2: "left_alone ready r w (close ?w1 ?r)" .
  have l0: "left_alone ready r w (emit [Descriptor_closed d] w)"
    using assms(1) by (simp add: left_alone_def unready_def emit_def handshakes_of_def)
  have lw: "left_alone ready r w w" using assms(1) by (simp add: left_alone_def)
  show ?thesis
    using l0 l1 l2 lw by (simp add: acceptConnection_def Let_def)
qed

lemma handshakes_of_run_iteration:
  assumes "r < allocated w" "unready ready r w" "selected inp = Select_ready ready"
  shows "handshakes_of r (trace (world_after (run_iteration w inp))) = handshakes_of r (trace w)"
proof (cases "continueRunning w \<and> serverIsRunning (server w)")
  case False
  then show ?thesis
    using assms(3) by (auto simp: run_iteration_def world_after_def)
next
  case True
  let ?w1 = "if serverSocket (server w) \<in> ready
             then acceptConnection w (accepted inp) (tlsPeer_created inp) else w"
  let ?ready = "ready - {serverSocket (server w)}"
  have "left_alone ready r w ?w1"
    using left_alone_acceptConnection[OF assms(2,1)] assms(2) by (simp add: left_alone_def)
  then have l1: "left_alone ?ready r w ?w1"
    using unready_subset[of ready r ?w1 ?ready] by (auto simp: left_alone_def)
  then have u1: "unready ?ready r ?w1" by (simp add: left_alone_def)
  let ?res = "serve_descriptors (tls inp) ?ready [0..maxDescriptor ?w1]
                (serverSocket (server ?w1)) ?w1"
  from left_alone_trans[OF l1 left_alone_serve_descriptors[OF u1]]
  have l2: "left_alone ?ready r w (world_after_call ?res)" .
  have "world_after (run_iteration w inp) =
          (case ?res of Inl e \<Rightarrow> snd e
           | Inr y \<Rightarrow> (snd y)\<lparr>maxDescriptor := fst y,
                                continueRunning := serverIsRunning (server (snd y))\<rparr>)"
    using True assms(3)
    by (simp add: run_iteration_def world_after_def Let_def split: sum.splits prod.splits)
  then show ?thesis
    using l2 by (auto simp: left_alone_def world_after_call_def split: sum.splits)
qed

text \<open>
  What the code does keep of the deferral. (1) In every execution of a server from its
  construction, each new-connection event in the trace comes after a call of
  \<^verbatim>\<open>SSL_accept\<close> for the same connection that returned a result other than 0, with no call
  that returned 0 for that connection in between: no event before the handshake was
  attempted, none after a result 0. (2) The accept block of the loop calls neither
  \<^verbatim>\<open>SSL_accept\<close> nor the event handler; when \<^verbatim>\<open>accept\<close> and \<^verbatim>\<open>SSL_new\<close> succeed on a descriptor
  that is not registered, the new connection is registered with its handshake pending.
  (3) A turn of the loop in which \<^verbatim>\<open>select\<close> reports no descriptor that is registered for a
  connection makes no handshake call for that connection.
\<close>

lemma handshake_deferred:
  "announced_after_handshake [] (trace (execs (new_server h junk) xs)) \<and>
   handshakes (trace (acceptConnection w d ok)) = handshakes (trace w) \<and>
   announcements (trace (acceptConnection w d ok)) = announcements (trace w) \<and>
   (0 \<le> d \<and> ok \<and> map_of (socketMap (server w)) d = None \<longrightarrow>
      sockets (acceptConnection w d ok) (allocated w) =
        Some \<lparr>owner = True, socketDescriptor = d, tlsPeer = Session_live,
              sslAccepted = False, eventHandler = None\<rparr> \<and>
      map_of (socketMap (server (acceptConnection w d ok))) d = Some (allocated w) \<and>
      d \<in> activeDescriptors (server (acceptConnection w d ok))) \<and>
   (r < allocated v \<and> (\<forall>d'\<in>ready. map_of (socketMap (server v)) d' \<noteq> Some r) \<and>
    selected inp = Select_ready ready \<longrightarrow>
      handshakes_of r (trace (world_after (run_iteration v inp))) = handshakes_of r (trace v))"
  using announcements_sound_from_start[of h junk xs]
    handshakes_acceptConnection[of w d ok] announcements_acceptConnection[of w d ok]
    acceptConnection_registers[of d ok w]
    handshakes_of_run_iteration[of r v ready inp]
  by (simp add: unready_def)

text \<open>
  C1. The new-connection event after a handshake that failed. \<^verbatim>\<open>SSL_accept\<close> reports a
  failed handshake with a result \<open>\<le> 0\<close>; \<open>acceptSSL\<close> tests \<^verbatim>\<open>! SSL_accept(_tlsPeer)\<close>, which
  holds for 0 only. For a connection with its handshake pending, owned by a running
  server with an event handler \<open>h\<close> and registered under its descriptor, a negative result
  makes the call return 1, mark the connection accepted and send the new-connection
  event for it: the event fires for a connection whose handshake attempt failed.
\<close>

theorem negative_handshake_result_announced:
  assumes "sockets w r = Some sk" and "tlsPeer sk = Session_live" and "\<not> sslAccepted sk"
    and "owner sk" and "serverIsRunning (server w)" and "serverEventHandler (server w) = Some h"
    and "map_of (socketMap (server w)) (socketDescriptor sk) = Some r"
    and "ssl_accept_result sc < 0"
  shows "socketReadyRead w r sc = Inr (1, world_after_call (socketReadyRead w r sc)) \<and>
         trace (world_after_call (socketReadyRead w r sc)) =
           trace w @ [SSL_accept_called r (ssl_accept_result sc), TlsNewConnection h r] \<and>
         sockets (world_after_call (socketReadyRead w r sc)) r = Some (sk\<lparr>sslAccepted := True\<rparr>)"
  using assms
  by (simp add: socketReadyRead_def acceptSSL_def sendNewConnectionEvent_def Let_def
        world_after_call_def emit_def)

theorem negative_handshake_result_announced_witness:
  "sockets pending 0 =
     Some \<lparr>owner = True, socketDescriptor = 4, tlsPeer = Session_live, sslAccepted = False,
           eventHandler = None\<rparr> \<and>
   serverIsRunning (server pending) \<and> serverEventHandler (server pending) = Some 7 \<and>
   map_of (socketMap (server pending)) 4 = Some 0 \<and> trace pending = [] \<and>
   trace (world_after_call (socketReadyRead pending 0
            \<lparr>ssl_accept_result = - 1, ssl_read_replies = []\<rparr>)) =
     [SSL_accept_called 0 (- 1), TlsNewConnection 7 0] \<and>
   trace (execs pending
            [Run_iteration (ready_turn 4 \<lparr>ssl_accept_result = - 1, ssl_read_replies = []\<rparr>)]) =
     [SSL_accept_called 0 (- 1), TlsNewConnection 7 0]"
proof -
  let ?sc = "\<lparr>ssl_accept_result = - 1, ssl_read_replies = []\<rparr>"
  have s: "sockets pending 0 =
     Some \<lparr>owner = True, socketDescriptor = 4, tlsPeer = Session_live, sslAccepted = False,
           eventHandler = None\<rparr>"
    by code_simp
  have g: "serverIsRunning (server pending)" by code_simp
  have h: "serverEventHandler (server pending) = Some 7" by code_simp
  have m: "map_of (socketMap (server pending)) 4 = Some 0" by code_simp
  have t: "trace pending = []" by code_simp
  have e: "trace (execs pending [Run_iteration (ready_turn 4 ?sc)]) =
           [SSL_accept_called 0 (- 1), TlsNewConnection 7 0]"
    by code_simp
  show ?thesis
    using s g h m t e negative_handshake_result_announced[OF s _ _ _ g h, of ?sc]
    by simp
qed

subsection \<open>A closed connection stays closed\<close>

lemma close_when_closed: "sockets w r = Some sk \<Longrightarrow> socketDescriptor sk = - 1 \<Longrightarrow> close w r = w"
  by (simp add: close_def)

lemma close_closed_for_good: "closed_for_good r w \<Longrightarrow> close w r = w"
  by (auto simp: closed_for_good_def close_def split: option.splits)

lemma closed_after_close: "r < allocated w \<Longrightarrow> closed_for_good r (close w r)"
  by (auto simp: closed_for_good_def close_def removeSocket_def releaseOwner_def emit_def Let_def
        split: option.splits)

lemma closed_emit: "closed_for_good r (emit es w) = closed_for_good r w"
  by (simp add: closed_for_good_def emit_def)

lemma closed_releaseOwner: "closed_for_good r w \<Longrightarrow> closed_for_good r (releaseOwner w r')"
  by (auto simp: closed_for_good_def releaseOwner_def split: option.splits)

lemma closed_setEventHandler: "closed_for_good r w \<Longrightarrow> closed_for_good r (setEventHandler w r' h)"
  by (auto simp: closed_for_good_def setEventHandler_def split: option.splits)

lemma closed_removeSocket: "closed_for_good r w \<Longrightarrow> closed_for_good r (removeSocket w r')"
  by (auto simp: closed_for_good_def removeSocket_def releaseOwner_def split: option.splits)

lemma closed_close: "closed_for_good r w \<Longrightarrow> closed_for_good r (close w r')"
  by (auto simp: closed_for_good_def close_def removeSocket_def releaseOwner_def emit_def Let_def
        split: option.splits if_splits)

lemma closed_acceptSSL:
  "closed_for_good r w \<Longrightarrow> closed_for_good r (world_after_call (acceptSSL w r' res))"
  by (auto simp: closed_for_good_def acceptSSL_def sendNewConnectionEvent_def world_after_call_def
        Let_def emit_def split: option.splits if_splits)

lemma closed_socketBytesReceived:
  "closed_for_good r (socketBytesReceived h r' bytes w) = closed_for_good r w"
  by (simp add: socketBytesReceived_def closed_emit split: option.splits)

lemma closed_socketReadyRead:
  assumes "closed_for_good r w"
  shows "closed_for_good r (world_after_call (socketReadyRead w r' sc))"
proof (cases "sockets w r'")
  case None
  then show ?thesis using assms by (simp add: socketReadyRead_def world_after_call_def)
next
  case (Some sk)
  from socketReadyRead_cases[OF Some, of sc] show ?thesis
    using assms closed_acceptSSL[OF assms] by (auto simp: closed_socketBytesReceived)
qed

lemma closed_acceptConnection:
  assumes "closed_for_good r w"
  shows "closed_for_good r (acceptConnection w d ok)"
proof -
  let ?r = "allocated w"
  let ?w1 = "w\<lparr>sockets := (sockets w)
                 (?r \<mapsto> \<lparr>owner = True, socketDescriptor = d, tlsPeer = Session_live,
                         sslAccepted = False, eventHandler = None\<rparr>),
               allocated := Suc ?r,
               server := (server w)
                 \<lparr>activeDescriptors := insert d (activeDescriptors (server w)),
                  socketMap := map_insert d ?r (socketMap (server w))\<rparr>,
               maxDescriptor := (if d > maxDescriptor w then d else maxDescriptor w)\<rparr>"
  have c1: "closed_for_good r ?w1"
    using assms by (auto simp: closed_for_good_def split: option.splits)
  then have "closed_for_good r (close ?w1 ?r)" by (rule closed_close)
  with c1 assms show ?thesis
    by (simp add: acceptConnection_def Let_def closed_emit)
qed

lemma closed_serve_descriptors:
  "closed_for_good r w \<Longrightarrow>
   closed_for_good r (world_after_call (serve_descriptors t ready ds m w))"
proof (induction ds arbitrary: m w)
  case Nil
  then show ?case by (simp add: world_after_call_def)
next
  case (Cons d ds)
  show ?case
  proof (cases "d \<in> activeDescriptors (server w) \<and> d \<in> ready")
    case False
    then show ?thesis using Cons.IH[OF Cons.prems] by auto
  next
    case True
    show ?thesis
    proof (cases "map_of (socketMap (server w)) d")
      case None
      then show ?thesis using True Cons.prems by (simp add: world_after_call_def)
    next
      case (Some r')
      show ?thesis
      proof (cases "sockets w r'")
        case None
        then show ?thesis using True Some Cons.IH[OF Cons.prems] by simp
      next
        case sk: (Some sk)
        have k1: "closed_for_good r (world_after_call (socketReadyRead w r' (t d)))"
          by (rule closed_socketReadyRead[OF Cons.prems])
        show ?thesis
        proof (cases "socketReadyRead w r' (t d)")
          case (Inl e)
          then show ?thesis using True Some sk k1 by (simp add: world_after_call_def)
        next
          case (Inr x)
          obtain result w1 where x: "x = (result, w1)" by (cases x)
          have k2: "closed_for_good r w1"
            using k1 Inr x by (simp add: world_after_call_def)
          let ?w2 = "if result \<le> 0 then close w1 r' else w1"
          have "closed_for_good r ?w2" using k2 closed_close[OF k2] by simp
          from Cons.IH[OF this] show ?thesis
            using True Some sk Inr x by simp
        qed
      qed
    qed
  qed
qed

lemma closed_run_iteration:
  assumes "closed_for_good r w"
  shows "closed_for_good r (world_after (run_iteration w inp))"
proof (cases "continueRunning w \<and> serverIsRunning (server w) \<and> selected inp \<noteq> Select_failed")
  case False
  then show ?thesis
    using assms
    by (auto simp: run_iteration_def world_after_def emit_def closed_for_good_def
          split: select_outcome.splits)
next
  case True
  then obtain ready where sel: "selected inp = Select_ready ready"
    by (cases "selected inp") auto
  let ?w1 = "if serverSocket (server w) \<in> ready
             then acceptConnection w (accepted inp) (tlsPeer_created inp) else w"
  have a1: "closed_for_good r ?w1"
    using assms by (simp add: closed_acceptConnection)
  let ?res = "serve_descriptors (tls inp) (ready - {serverSocket (server w)}) [0..maxDescriptor ?w1]
                (serverSocket (server ?w1)) ?w1"
  have k2: "closed_for_good r (world_after_call ?res)"
    by (rule closed_serve_descriptors[OF a1])
  have "world_after (run_iteration w inp) =
          (case ?res of Inl e \<Rightarrow> snd e
           | Inr y \<Rightarrow> (snd y)\<lparr>maxDescriptor := fst y,
                                continueRunning := serverIsRunning (server (snd y))\<rparr>)"
    using True sel
    by (simp add: run_iteration_def world_after_def Let_def split: sum.splits prod.splits)
  then show ?thesis
    using k2 by (auto simp: closed_for_good_def world_after_call_def split: sum.splits)
qed

lemma closed_drain_entry:
  assumes "closed_for_good r w"
  shows "closed_for_good r (drain_entry w x)"
proof (cases "sockets w (snd x)")
  case None
  then show ?thesis using assms by (simp add: drain_entry_def)
next
  case (Some sk)
  let ?w1 = "w\<lparr>server := (server w)
        \<lparr>activeDescriptors := activeDescriptors (server w) - {socketDescriptor sk}\<rparr>\<rparr>"
  have "closed_for_good r ?w1" using assms by (simp add: closed_for_good_def)
  then have "closed_for_good r (close (releaseOwner ?w1 (snd x)) (snd x))"
    by (intro closed_close closed_releaseOwner)
  then show ?thesis using Some by (simp add: drain_entry_def)
qed

lemma closed_foldl_drain:
  "closed_for_good r w \<Longrightarrow> closed_for_good r (foldl drain_entry w xs)"
  by (induction xs arbitrary: w) (simp_all add: closed_drain_entry)

lemma closed_stopTask: "closed_for_good r w \<Longrightarrow> closed_for_good r (stopTask w)"
  using closed_foldl_drain[of r w "socketMap (server w)"]
  by (simp add: stopTask_def Let_def closed_for_good_def)

lemma closed_exec_op:
  assumes a: "closed_for_good r w"
  shows "closed_for_good r (exec_op w x)"
proof (cases x)
  case (Listen port a b c)
  then show ?thesis using a by (auto simp: listen_def Let_def emit_def closed_for_good_def)
next
  case Shutdown
  then show ?thesis using a by (auto simp: shutdown_def emit_def closed_for_good_def)
next
  case Run_begin
  then show ?thesis using a by (simp add: run_begin_def closed_for_good_def)
next
  case (Run_iteration inp)
  then show ?thesis
    using closed_run_iteration[OF a, of inp]
    by (auto simp: world_after_def faulted_def closed_for_good_def split: sum.splits)
next
  case StopTask
  then show ?thesis using closed_stopTask[OF a] by simp
next
  case (Socket_close r')
  then show ?thesis using closed_close[OF a] by simp
next
  case (Socket_write r' bytes n)
  then show ?thesis
    using a
    by (auto simp: write_bytes_def faulted_def emit_def closed_for_good_def split: option.splits)
next
  case (Socket_setEventHandler r' h)
  then show ?thesis using closed_setEventHandler[OF a] by simp
qed

lemma closed_execs: "closed_for_good r w \<Longrightarrow> closed_for_good r (execs w xs)"
proof (induction xs arbitrary: w)
  case Nil
  then show ?case by (simp add: execs_def)
next
  case (Cons x xs)
  from Cons.IH[OF closed_exec_op[OF Cons.prems]] show ?case by (simp add: execs_Cons)
qed

text \<open>
  C7. \<^verbatim>\<open>close()\<close> is idempotent. A \<open>close\<close> on a connection whose descriptor is -1 changes
  nothing: the registry and the interest set are as they were, the owner is not called,
  the trace gets no event (no disconnect notification, no library call), and the
  connection object is unchanged. A \<open>close\<close> leaves the descriptor at -1, and no call on
  the server or on any connection sets it again. So after the first \<open>close\<close> of a connection
  that the server created (\<open>r < allocated w\<close>), a further \<open>close\<close> is a no-op, whether it
  follows at once or after any other calls \<open>xs\<close> (a new event sink for the connection,
  turns of the loop, \<open>shutdown\<close>, the drain).
\<close>

theorem close_idempotent:
  "close (close w r) r = close w r \<and>
   (sockets w r = Some sk \<and> socketDescriptor sk = - 1 \<longrightarrow> close w r = w) \<and>
   (r < allocated w \<longrightarrow> close (execs (close w r) xs) r = execs (close w r) xs)"
proof -
  have 1: "close (close w r) r = close w r"
    by (auto simp: close_def removeSocket_def releaseOwner_def emit_def Let_def split: option.splits)
  have 3: "r < allocated w \<Longrightarrow> close (execs (close w r) xs) r = execs (close w r) xs"
    by (intro close_closed_for_good closed_execs closed_after_close)
  show ?thesis using 1 3 close_when_closed by blast
qed

theorem close_idempotent_witness:
  "allocated serving = 1 \<and>
   socketMap (server serving) = [(4, 0)] \<and> socketMap (server (close serving 0)) = [] \<and>
   notifications (trace (close serving 0)) = [TlsNewConnection 7 0, SocketDisconnected 9 0] \<and>
   sockets (close serving 0) 0 =
     Some \<lparr>owner = False, socketDescriptor = - 1, tlsPeer = Session_freed, sslAccepted = True,
           eventHandler = Some 9\<rparr> \<and>
   close (close serving 0) 0 = close serving 0 \<and>
   close (execs (close serving 0)
            [Socket_setEventHandler 0 (Some 5), Run_iteration (accept_turn 5), Shutdown, StopTask]) 0 =
     execs (close serving 0)
       [Socket_setEventHandler 0 (Some 5), Run_iteration (accept_turn 5), Shutdown, StopTask]"
proof -
  let ?xs = "[Socket_setEventHandler 0 (Some 5), Run_iteration (accept_turn 5), Shutdown, StopTask]"
  have a: "allocated serving = 1" by code_simp
  have m: "socketMap (server serving) = [(4, 0)]" by code_simp
  have m': "socketMap (server (close serving 0)) = []" by code_simp
  have n: "notifications (trace (close serving 0)) = [TlsNewConnection 7 0, SocketDisconnected 9 0]"
    by code_simp
  have s: "sockets (close serving 0) 0 =
     Some \<lparr>owner = False, socketDescriptor = - 1, tlsPeer = Session_freed, sslAccepted = True,
           eventHandler = Some 9\<rparr>"
    by code_simp
  show ?thesis
    using a m m' n s
      close_idempotent[of serving 0 _ ?xs]
      close_idempotent[of "close serving 0" 0
        "\<lparr>owner = False, socketDescriptor = - 1, tlsPeer = Session_freed, sslAccepted = True,
          eventHandler = Some 9\<rparr>" "[]"]
    by simp
qed
end
